theory Spec2Isabelle
  imports Complex_Main
begin

section \<open>JavaScript values and arrays\<close>

text \<open>
  The engine of \<^verbatim>\<open>src/components/tetris-game.tsx\<close> works on arrays of arrays.
  A shape is a \<^verbatim>\<open>number[][]\<close>, a board a \<^verbatim>\<open>(string | 0)[][]\<close>. At run time both
  are JavaScript arrays, whose reads never fail (an index outside the array reads
  \<^verbatim>\<open>undefined\<close>) and whose writes past the end grow the array and leave holes.
  The element type below has what an element can be at run time: a number, a string
  (a colour), \<^verbatim>\<open>undefined\<close>, or a hole (an index below the length that holds nothing).
\<close>

datatype jsval = Num int | Str string | Undefined | Hole

type_synonym row = "jsval list"

type_synonym matrix = "row list"

text \<open>Reading an element: what the program sees at a hole is \<^verbatim>\<open>undefined\<close>.\<close>

definition js_read :: "jsval \<Rightarrow> jsval" where
  "js_read v = (if v = Hole then Undefined else v)"

text \<open>\<^verbatim>\<open>arr[i]\<close>: outside the array the read gives \<^verbatim>\<open>undefined\<close>.\<close>

definition js_get :: "row \<Rightarrow> int \<Rightarrow> jsval" where
  "js_get xs i = (if 0 \<le> i \<and> i < int (length xs) then js_read (xs ! nat i) else Undefined)"

text \<open>
  \<^verbatim>\<open>arr[i] = v\<close>: inside the array the element is replaced; at or past the end the
  array grows to length \<open>i + 1\<close> and the indices between are holes; a negative index
  sets a property that is no element (the elements and the length stay as they are,
  and the engine never reads such a property back).
\<close>

definition js_set :: "row \<Rightarrow> int \<Rightarrow> jsval \<Rightarrow> row" where
  "js_set xs i v =
     (if i < 0 then xs
      else if i < int (length xs) then xs[nat i := v]
      else xs @ replicate (nat i - length xs) Hole @ [v])"

text \<open>\<^verbatim>\<open>[...row]\<close>: a fresh array; spreading reads every index, so holes become \<^verbatim>\<open>undefined\<close>.\<close>

definition spread :: "row \<Rightarrow> row" where
  "spread xs = map js_read xs"

text \<open>
  \<^verbatim>\<open>row.every((block) => block !== 0)\<close>: the callback is not called at holes, so a hole
  never makes the result false.
\<close>

definition every_nonzero :: "row \<Rightarrow> bool" where
  "every_nonzero xs = list_all (\<lambda>block. block = Hole \<or> block \<noteq> Num 0) xs"

section \<open>Constants, positions and the board\<close>

definition BOARD_WIDTH :: int where
  "BOARD_WIDTH = 10"

definition BOARD_HEIGHT :: int where
  "BOARD_HEIGHT = 20"

type_synonym board = "matrix"

text \<open>The object \<^verbatim>\<open>{ x, y }\<close> of a position.\<close>

record pos =
  posX :: int
  posY :: int

text \<open>\<^verbatim>\<open>Array(BOARD_WIDTH).fill(0)\<close>\<close>

definition emptyRow :: row where
  "emptyRow = replicate (nat BOARD_WIDTH) (Num 0)"

text \<open>\<^verbatim>\<open>Array.from({ length: BOARD_HEIGHT }, () => Array(BOARD_WIDTH).fill(0))\<close>\<close>

definition createBoard :: board where
  "createBoard = replicate (nat BOARD_HEIGHT) emptyRow"

section \<open>checkCollision\<close>

text \<open>
  The inner loop of \<^verbatim>\<open>checkCollision\<close> over the cells of \<^verbatim>\<open>tetromino[row]\<close> from column
  \<open>col\<close> on, with \<open>boardY = y + row\<close>; a \<^verbatim>\<open>return true\<close> of the source is the value
  \<open>True\<close>. \<^verbatim>\<open>board[boardY]\<close> is truthy exactly when the board has that row.
\<close>

fun checkCollisionRow :: "row \<Rightarrow> board \<Rightarrow> int \<Rightarrow> int \<Rightarrow> int \<Rightarrow> bool" where
  "checkCollisionRow [] board x boardY col = False"
| "checkCollisionRow (block # rest) board x boardY col =
     (if js_read block \<noteq> Num 0 then
        (let boardX = x + col in
         if boardX < 0 \<or> boardX \<ge> BOARD_WIDTH then True
         else if boardY \<ge> BOARD_HEIGHT then True
         else if boardY \<ge> 0 \<and> nat boardY < length board
                 \<and> js_get (board ! nat boardY) boardX \<noteq> Num 0 then True
         else checkCollisionRow rest board x boardY (col + 1))
      else checkCollisionRow rest board x boardY (col + 1))"

text \<open>The outer loop over the rows of the shape from row \<open>row\<close> on.\<close>

fun checkCollisionRows :: "matrix \<Rightarrow> board \<Rightarrow> int \<Rightarrow> int \<Rightarrow> int \<Rightarrow> bool" where
  "checkCollisionRows [] board x y row = False"
| "checkCollisionRows (cells # rest) board x y row =
     (if checkCollisionRow cells board x (y + row) 0 then True
      else checkCollisionRows rest board x y (row + 1))"

definition checkCollision :: "matrix \<Rightarrow> board \<Rightarrow> pos \<Rightarrow> bool" where
  "checkCollision tetromino board p = checkCollisionRows tetromino board (posX p) (posY p) 0"

section \<open>Arrays as objects: rotate\<close>

text \<open>
  \<^verbatim>\<open>rotate\<close> swaps elements of its argument in place and reverses arrays in place, so
  what it does depends on which arrays are shared. Arrays are therefore objects in a
  store here: an inner array (a row) is found by its reference in \<open>rowsOf\<close>, an outer
  array (a grid, holding references to rows) in \<open>gridOf\<close>, and references from \<open>lim\<close>
  on are unused.
\<close>

type_synonym ref = nat

record heap =
  rowsOf :: "ref \<Rightarrow> row"
  gridOf :: "ref \<Rightarrow> ref list"
  lim :: ref

definition emptyHeap :: heap where
  "emptyHeap = \<lparr>rowsOf = (\<lambda>_. []), gridOf = (\<lambda>_. []), lim = 0\<rparr>"

definition alloc_row :: "heap \<Rightarrow> row \<Rightarrow> heap \<times> ref" where
  "alloc_row h cells = (h\<lparr>rowsOf := (rowsOf h)(lim h := cells), lim := Suc (lim h)\<rparr>, lim h)"

definition alloc_grid :: "heap \<Rightarrow> ref list \<Rightarrow> heap \<times> ref" where
  "alloc_grid h rs = (h\<lparr>gridOf := (gridOf h)(lim h := rs), lim := Suc (lim h)\<rparr>, lim h)"

text \<open>The value of a grid: the contents of its rows, in order.\<close>

definition matrixOf :: "heap \<Rightarrow> ref \<Rightarrow> matrix" where
  "matrixOf h m = map (rowsOf h) (gridOf h m)"

text \<open>A literal \<^verbatim>\<open>[[...], ...]\<close>: a new array for every row and a new outer array.\<close>

fun storeRows :: "heap \<Rightarrow> matrix \<Rightarrow> heap \<times> ref list" where
  "storeRows h [] = (h, [])"
| "storeRows h (cells # rest) =
     (let (h1, r) = alloc_row h cells; (h2, rs) = storeRows h1 rest in (h2, r # rs))"

definition storeMatrix :: "heap \<Rightarrow> matrix \<Rightarrow> heap \<times> ref" where
  "storeMatrix h mat = (let (h1, rs) = storeRows h mat in alloc_grid h1 rs)"

text \<open>\<^verbatim>\<open>shape.map((row) => [...row])\<close>: a new array for every row, a new outer array.\<close>

fun copyRows :: "heap \<Rightarrow> ref list \<Rightarrow> heap \<times> ref list" where
  "copyRows h [] = (h, [])"
| "copyRows h (r # rest) =
     (let (h1, r') = alloc_row h (spread (rowsOf h r)); (h2, rs') = copyRows h1 rest
      in (h2, r' # rs'))"

definition copyMatrix :: "heap \<Rightarrow> ref \<Rightarrow> heap \<times> ref" where
  "copyMatrix h m = (let (h1, rs) = copyRows h (gridOf h m) in alloc_grid h1 rs)"

text \<open>
  \<^verbatim>\<open>[matrix[x][y], matrix[y][x]] = [matrix[y][x], matrix[x][y]]\<close>: the two reads, then
  the write to \<^verbatim>\<open>matrix[x][y]\<close>, then the write to \<^verbatim>\<open>matrix[y][x]\<close>. The loops call it
  with \<open>x < y < matrix.length\<close>, so both rows exist.
\<close>

definition swapCells :: "heap \<Rightarrow> ref \<Rightarrow> nat \<Rightarrow> nat \<Rightarrow> heap" where
  "swapCells h matrix x y =
     (let rx = gridOf h matrix ! x;
          ry = gridOf h matrix ! y;
          fromYX = js_get (rowsOf h ry) (int x);
          fromXY = js_get (rowsOf h rx) (int y);
          h1 = h\<lparr>rowsOf := (rowsOf h)(rx := js_set (rowsOf h rx) (int y) fromYX)\<rparr>
      in h1\<lparr>rowsOf := (rowsOf h1)(ry := js_set (rowsOf h1 ry) (int x) fromXY)\<rparr>)"

text \<open>The two loops of the transposition: \<open>y\<close> from 0 below \<^verbatim>\<open>matrix.length\<close>, \<open>x\<close> from 0 below \<open>y\<close>.\<close>

definition transposeInPlace :: "heap \<Rightarrow> ref \<Rightarrow> heap" where
  "transposeInPlace h matrix =
     fold (\<lambda>y h'. fold (\<lambda>x h''. swapCells h'' matrix x y) [0..<y] h')
       [0..<length (gridOf h matrix)] h"

text \<open>\<^verbatim>\<open>row.reverse()\<close> reverses the array itself.\<close>

definition reverseRow :: "heap \<Rightarrow> ref \<Rightarrow> heap" where
  "reverseRow h r = h\<lparr>rowsOf := (rowsOf h)(r := rev (rowsOf h r))\<rparr>"

text \<open>
  \<^verbatim>\<open>rotate(matrix, dir)\<close>. For \<open>dir > 0\<close>, \<^verbatim>\<open>matrix.map((row) => row.reverse())\<close> reverses
  every row in place and returns a new outer array of the same rows; otherwise
  \<^verbatim>\<open>matrix.reverse()\<close> reverses the outer array in place and returns it.
\<close>

definition rotate :: "heap \<Rightarrow> ref \<Rightarrow> int \<Rightarrow> heap \<times> ref" where
  "rotate h matrix dir =
     (let h1 = transposeInPlace h matrix in
      if dir > 0 then
        alloc_grid (fold (\<lambda>r h'. reverseRow h' r) (gridOf h1 matrix) h1) (gridOf h1 matrix)
      else (h1\<lparr>gridOf := (gridOf h1)(matrix := rev (gridOf h1 matrix))\<rparr>, matrix))"

text \<open>
  The value of \<^verbatim>\<open>rotate(shape.map((row) => [...row]), 1)\<close> for a shape held in the
  store: what the key handler computes for the Up key.
\<close>

definition rotatedCopy :: "matrix \<Rightarrow> matrix" where
  "rotatedCopy shp =
     (let (h0, m) = storeMatrix emptyHeap shp;
          (h1, c) = copyMatrix h0 m;
          (h2, res) = rotate h1 c 1
      in matrixOf h2 res)"

section \<open>The piece catalog\<close>

record tetromino =
  shape :: matrix
  color :: string

datatype TetrominoKey = I_key | J_key | L_key | O_key | S_key | T_key | Z_key

definition nums :: "int list \<Rightarrow> row" where
  "nums ns = map Num ns"

fun TETROMINOES :: "TetrominoKey \<Rightarrow> tetromino" where
  "TETROMINOES I_key = \<lparr>shape = [nums [0, 0, 0, 0], nums [1, 1, 1, 1], nums [0, 0, 0, 0], nums [0, 0, 0, 0]],
                         color = ''cyan''\<rparr>"
| "TETROMINOES J_key = \<lparr>shape = [nums [1, 0, 0], nums [1, 1, 1], nums [0, 0, 0]], color = ''blue''\<rparr>"
| "TETROMINOES L_key = \<lparr>shape = [nums [0, 0, 1], nums [1, 1, 1], nums [0, 0, 0]], color = ''orange''\<rparr>"
| "TETROMINOES O_key = \<lparr>shape = [nums [1, 1], nums [1, 1]], color = ''yellow''\<rparr>"
| "TETROMINOES S_key = \<lparr>shape = [nums [0, 1, 1], nums [1, 1, 0], nums [0, 0, 0]], color = ''green''\<rparr>"
| "TETROMINOES T_key = \<lparr>shape = [nums [0, 1, 0], nums [1, 1, 1], nums [0, 0, 0]], color = ''purple''\<rparr>"
| "TETROMINOES Z_key = \<lparr>shape = [nums [1, 1, 0], nums [0, 1, 1], nums [0, 0, 0]], color = ''red''\<rparr>"

section \<open>updateBoard: lock and line clear\<close>

datatype error = TypeError

text \<open>
  The inner \<^verbatim>\<open>row.forEach((block, x) => ...)\<close> of \<^verbatim>\<open>updateBoard\<close>, from column \<open>x\<close> on
  (\<^verbatim>\<open>forEach\<close> does not call back at holes). \<^verbatim>\<open>newBoard[newPos.y + y]\<close> is \<^verbatim>\<open>undefined\<close>
  outside the board, and the assignment to an element of \<^verbatim>\<open>undefined\<close> throws a TypeError.
\<close>

fun placeRow :: "row \<Rightarrow> board \<Rightarrow> string \<Rightarrow> pos \<Rightarrow> int \<Rightarrow> int \<Rightarrow> error + board" where
  "placeRow [] newBoard clr newPos y x = Inr newBoard"
| "placeRow (block # rest) newBoard clr newPos y x =
     (if block \<noteq> Hole \<and> block \<noteq> Num 0 then
        (let r = posY newPos + y in
         if 0 \<le> r \<and> nat r < length newBoard then
           placeRow rest
             (newBoard[nat r := js_set (newBoard ! nat r) (posX newPos + x) (Str clr)])
             clr newPos y (x + 1)
         else Inl TypeError)
      else placeRow rest newBoard clr newPos y (x + 1))"

text \<open>The outer \<^verbatim>\<open>newTetromino.shape.forEach((row, y) => ...)\<close>, from row \<open>y\<close> on.\<close>

fun placeRows :: "matrix \<Rightarrow> board \<Rightarrow> string \<Rightarrow> pos \<Rightarrow> int \<Rightarrow> error + board" where
  "placeRows [] newBoard clr newPos y = Inr newBoard"
| "placeRows (cells # rest) newBoard clr newPos y =
     (case placeRow cells newBoard clr newPos y 0 of
        Inl e \<Rightarrow> Inl e
      | Inr b \<Rightarrow> placeRows rest b clr newPos (y + 1))"

text \<open>
  The first half of the function that \<^verbatim>\<open>updateBoard\<close> passes to \<^verbatim>\<open>setBoard\<close>: the copy
  \<^verbatim>\<open>prevBoard.map((row) => [...row])\<close> and the write of the piece's colour.
\<close>

definition placePiece :: "tetromino \<Rightarrow> pos \<Rightarrow> board \<Rightarrow> error + board" where
  "placePiece newTetromino newPos prevBoard =
     placeRows (shape newTetromino) (map spread prevBoard) (color newTetromino) newPos 0"

text \<open>
  The line-clear loop \<^verbatim>\<open>for (let y = BOARD_HEIGHT - 1; y >= 0; y--)\<close>. On a full row,
  \<^verbatim>\<open>splice(y, 1)\<close> removes it, \<^verbatim>\<open>unshift\<close> puts a new empty row in front, and \<^verbatim>\<open>y++\<close>
  undoes the loop's \<^verbatim>\<open>y--\<close>, so the same index is looked at again. \<^verbatim>\<open>newBoard[y]\<close> is
  \<^verbatim>\<open>undefined\<close> when the board has no row \<open>y\<close>, and calling \<^verbatim>\<open>every\<close> on it throws.
\<close>

function clearLoop :: "board \<Rightarrow> int \<Rightarrow> int \<Rightarrow> error + (board \<times> int)" where
  "clearLoop newBoard y linesCleared =
     (if y \<ge> 0 then
        (if nat y < length newBoard then
           (if every_nonzero (newBoard ! nat y) then
              clearLoop (emptyRow # (take (nat y) newBoard @ drop (Suc (nat y)) newBoard))
                y (linesCleared + 1)
            else clearLoop newBoard (y - 1) linesCleared)
         else Inl TypeError)
      else Inr (newBoard, linesCleared))"
  by pat_completeness auto

lemma emptyRow_not_full: "\<not> every_nonzero emptyRow"
  by (simp add: every_nonzero_def emptyRow_def BOARD_WIDTH_def list_all_iff)

lemma filter_remove_nth_less:
  assumes "n < length xs" and "P (xs ! n)"
  shows "length (filter P (take n xs @ drop (Suc n) xs)) < length (filter P xs)"
proof -
  have "length (filter P xs) = length (filter P (take n xs @ xs ! n # drop (Suc n) xs))"
    using assms(1) by (simp add: id_take_nth_drop [symmetric])
  with assms(2) show ?thesis by simp
qed

termination clearLoop
proof (relation "measures [\<lambda>(b, y, n). length (filter every_nonzero b), \<lambda>(b, y, n). nat (y + 1)]")
  show "wf (measures [\<lambda>(b, y, n). length (filter every_nonzero b), \<lambda>(b, y, n). nat (y + 1)])"
    by simp
next
  fix newBoard :: board and y linesCleared :: int
  assume "0 \<le> y" "nat y < length newBoard" "every_nonzero (newBoard ! nat y)"
  then show "((emptyRow # take (nat y) newBoard @ drop (Suc (nat y)) newBoard, y, linesCleared + 1),
              (newBoard, y, linesCleared))
    \<in> measures [\<lambda>(b, y, n). length (filter every_nonzero b), \<lambda>(b, y, n). nat (y + 1)]"
    using filter_remove_nth_less [of "nat y" newBoard every_nonzero]
    by (simp add: emptyRow_not_full)
next
  fix newBoard :: board and y linesCleared :: int
  assume "0 \<le> y"
  then show "((newBoard, y - 1, linesCleared), (newBoard, y, linesCleared))
    \<in> measures [\<lambda>(b, y, n). length (filter every_nonzero b), \<lambda>(b, y, n). nat (y + 1)]"
    by simp
qed

text \<open>
  The function that \<^verbatim>\<open>updateBoard\<close> passes to \<^verbatim>\<open>setBoard\<close>: the new board, and with it the
  value of \<^verbatim>\<open>linesCleared\<close> when the loop ends.
\<close>

definition boardUpdater :: "tetromino \<Rightarrow> pos \<Rightarrow> board \<Rightarrow> error + (board \<times> int)" where
  "boardUpdater newTetromino newPos prevBoard =
     (case placePiece newTetromino newPos prevBoard of
        Inl e \<Rightarrow> Inl e
      | Inr newBoard \<Rightarrow> clearLoop newBoard (BOARD_HEIGHT - 1) 0)"

section \<open>The component's state\<close>

text \<open>
  The component holds six state variables (\<^verbatim>\<open>useState\<close>), a ref beside five of them
  that an effect sets to the state variable's value after a render, and two timing
  refs. The handlers read the refs and queue state updates: within one handler a
  ref still has the value of the last render, while an updater function
  (\<^verbatim>\<open>setBoard((prevBoard) => ...)\<close>) gets the pending value of its state variable.

  Each handler below takes the record as it is when the handler starts and returns
  it with the queued updates applied, the refs untouched; \<open>commit\<close> is the render
  that follows, whose effects copy the state into the refs. An updater function runs
  once per queued update. A TypeError thrown by an updater is the result \<open>Inl TypeError\<close>.
\<close>

record game =
  board :: board
  currentTetromino :: "tetromino option"
  currentPos :: pos
  score :: int
  gameOver :: bool
  gameStarted :: bool
  gameStartedRef :: bool
  gameOverRef :: bool
  currentTetrominoRef :: "tetromino option"
  currentPosRef :: pos
  boardRef :: board
  dropTimeRef :: real
  lastTimeRef :: real

text \<open>The state of the component when it is mounted.\<close>

definition initialGame :: game where
  "initialGame =
     \<lparr>board = createBoard, currentTetromino = None, currentPos = \<lparr>posX = 0, posY = 0\<rparr>,
      score = 0, gameOver = False, gameStarted = False,
      gameStartedRef = False, gameOverRef = False, currentTetrominoRef = None,
      currentPosRef = \<lparr>posX = 0, posY = 0\<rparr>, boardRef = createBoard,
      dropTimeRef = 0, lastTimeRef = 0\<rparr>"

text \<open>The five effects \<^verbatim>\<open>useEffect(() => { xRef.current = x }, [x])\<close>.\<close>

definition commit :: "game \<Rightarrow> game" where
  "commit s = s\<lparr>gameStartedRef := gameStarted s, gameOverRef := gameOver s,
                 currentTetrominoRef := currentTetromino s, currentPosRef := currentPos s,
                 boardRef := board s\<rparr>"

text \<open>
  \<^verbatim>\<open>updateBoard(newTetromino, newPos)\<close>: \<^verbatim>\<open>setBoard\<close> with the updater above, which
  calls \<^verbatim>\<open>setScore((prevScore) => prevScore + linesCleared * 100)\<close> when a line was cleared.
\<close>

definition updateBoard :: "tetromino \<Rightarrow> pos \<Rightarrow> game \<Rightarrow> error + game" where
  "updateBoard newTetromino newPos s =
     (case boardUpdater newTetromino newPos (board s) of
        Inl e \<Rightarrow> Inl e
      | Inr (newBoard, linesCleared) \<Rightarrow>
          Inr (s\<lparr>board := newBoard,
                 score := (if linesCleared > 0 then score s + linesCleared * 100 else score s)\<rparr>))"

text \<open>
  \<^verbatim>\<open>newTetromino()\<close>; \<open>kind\<close> is the key that \<^verbatim>\<open>getRandomTetromino()\<close> returns. The
  collision test reads \<^verbatim>\<open>boardRef.current\<close>. When it collides the function sets the two
  flags and returns \<^verbatim>\<open>null\<close>; it calls no other setter.
\<close>

definition newTetromino :: "TetrominoKey \<Rightarrow> game \<Rightarrow> game" where
  "newTetromino kind s =
     (let tetromino = TETROMINOES kind;
          startX = BOARD_WIDTH div 2 - int (length (shape tetromino ! 0)) div 2;
          startY = 0
      in if checkCollision (shape tetromino) (boardRef s) \<lparr>posX = startX, posY = startY\<rparr>
         then s\<lparr>gameOver := True, gameStarted := False\<rparr>
         else s\<lparr>currentTetromino := Some tetromino,
                currentPos := \<lparr>posX = startX, posY = startY\<rparr>\<rparr>)"

text \<open>
  One call of \<^verbatim>\<open>gameLoop(time)\<close>, the animation-frame callback. Time stamps are taken as
  real numbers. Drawing and the request for the next frame change nothing below.
\<close>

definition gameLoop :: "real \<Rightarrow> TetrominoKey \<Rightarrow> game \<Rightarrow> error + game" where
  "gameLoop time kind s =
     (if \<not> gameStartedRef s \<or> gameOverRef s then Inr s
      else
        let s1 = (if lastTimeRef s = 0 then s\<lparr>lastTimeRef := time\<rparr> else s);
            deltaTime = time - lastTimeRef s1;
            s2 = s1\<lparr>lastTimeRef := time, dropTimeRef := dropTimeRef s1 + deltaTime\<rparr>;
            dropInterval = 1000
        in if dropTimeRef s2 > dropInterval then
             (let s3 = s2\<lparr>dropTimeRef := 0\<rparr> in
              case currentTetrominoRef s3 of
                None \<Rightarrow> Inr s3
              | Some cur \<Rightarrow>
                  (let newY = posY (currentPosRef s3) + 1 in
                   if \<not> checkCollision (shape cur) (boardRef s3)
                          \<lparr>posX = posX (currentPosRef s3), posY = newY\<rparr>
                   then Inr (s3\<lparr>currentPos := (currentPos s3)\<lparr>posY := newY\<rparr>\<rparr>)
                   else (case updateBoard cur (currentPosRef s3) s3 of
                           Inl e \<Rightarrow> Inl e
                         | Inr s4 \<Rightarrow> Inr (newTetromino kind s4))))
           else Inr s2)"

text \<open>\<^verbatim>\<open>startGame()\<close>, the click handler of the button.\<close>

definition startGame :: "TetrominoKey \<Rightarrow> game \<Rightarrow> game" where
  "startGame kind s =
     (let s1 = s\<lparr>board := createBoard, score := 0, gameOver := False, gameStarted := True\<rparr>;
          s2 = newTetromino kind s1
      in s2\<lparr>lastTimeRef := 0, dropTimeRef := 0\<rparr>)"

text \<open>
  The loop of the hard drop,
  \<^verbatim>\<open>while (!checkCollision(shape, board, { x, y: dropY + 1 })) { dropY++ }\<close>.
  It has no bound of its own: the value is \<open>None\<close> when it does not end.
\<close>

partial_function (option) hardDropLoop :: "matrix \<Rightarrow> board \<Rightarrow> int \<Rightarrow> int \<Rightarrow> int option" where
  "hardDropLoop shp b x dropY =
     (if \<not> checkCollision shp b \<lparr>posX = x, posY = dropY + 1\<rparr>
      then hardDropLoop shp b x (dropY + 1)
      else Some dropY)"

declare hardDropLoop.simps [code]

text \<open>
  \<^verbatim>\<open>handleKeyDown(e)\<close>, with \<open>k\<close> the value of \<^verbatim>\<open>e.key\<close>. The branch of the space key
  ends with \<^verbatim>\<open>return\<close>; every other key, known or not, goes on to the collision test
  after the chain of comparisons. The result is \<open>None\<close> when the loop of the hard drop
  does not end.
\<close>

definition handleKeyDown :: "string \<Rightarrow> TetrominoKey \<Rightarrow> game \<Rightarrow> (error + game) option" where
  "handleKeyDown k kind s =
     (if \<not> gameStartedRef s \<or> gameOverRef s then Some (Inr s)
      else case currentTetrominoRef s of
        None \<Rightarrow> Some (Inr s)
      | Some cur \<Rightarrow>
          if k \<noteq> '' '' then
            (let newX = (if k = ''ArrowLeft'' then posX (currentPosRef s) - 1
                         else if k = ''ArrowRight'' then posX (currentPosRef s) + 1
                         else posX (currentPosRef s));
                 newY = (if k = ''ArrowDown'' then posY (currentPosRef s) + 1
                         else posY (currentPosRef s));
                 newShape = (if k = ''ArrowUp'' then rotatedCopy (shape cur) else shape cur)
             in if \<not> checkCollision newShape (boardRef s) \<lparr>posX = newX, posY = newY\<rparr> then
                  Some (Inr (s\<lparr>currentPos := \<lparr>posX = newX, posY = newY\<rparr>,
                               currentTetromino :=
                                 map_option (\<lambda>prev. prev\<lparr>shape := newShape\<rparr>) (currentTetromino s)\<rparr>))
                else if k = ''ArrowDown'' then
                  (case updateBoard cur (currentPosRef s) s of
                     Inl e \<Rightarrow> Some (Inl e)
                   | Inr s1 \<Rightarrow> Some (Inr (newTetromino kind s1)))
                else Some (Inr s))
          else
            (case hardDropLoop (shape cur) (boardRef s) (posX (currentPosRef s))
                    (posY (currentPosRef s)) of
               None \<Rightarrow> None
             | Some dropY \<Rightarrow> Some (Inr (s\<lparr>currentPos := (currentPos s)\<lparr>posY := dropY\<rparr>\<rparr>))))"

text \<open>
  The events of the component, each followed by the render that commits it. The
  button is disabled while the game runs. With every event comes the key that the
  random source gives if the handler asks for one.
\<close>

datatype event = KeyDown string | Frame real | StartClick

fun step :: "event \<Rightarrow> TetrominoKey \<Rightarrow> game \<Rightarrow> (error + game) option" where
  "step (KeyDown k) kind s = map_option (map_sum id commit) (handleKeyDown k kind s)"
| "step (Frame time) kind s = Some (map_sum id commit (gameLoop time kind s))"
| "step StartClick kind s =
     Some (Inr (commit (if gameStarted s \<and> \<not> gameOver s then s else startGame kind s)))"

fun run :: "(event \<times> TetrominoKey) list \<Rightarrow> game \<Rightarrow> (error + game) option" where
  "run [] s = Some (Inr s)"
| "run ((e, kind) # rest) s =
     (case step e kind s of
        None \<Rightarrow> None
      | Some (Inl err) \<Rightarrow> Some (Inl err)
      | Some (Inr s') \<Rightarrow> run rest s')"

section \<open>Notions used in the statements\<close>

subsection \<open>Collision\<close>

text \<open>
  The collision predicate in the words of the specification: some occupied cell
  \<open>(r, c)\<close> of the shape maps to a board coordinate \<open>(x + c, y + r)\<close> whose x is outside
  \<open>[0, width)\<close>, or whose y is at least the height, or whose y is not negative and whose
  board cell is not empty.
\<close>

definition occupied :: "jsval \<Rightarrow> bool" where
  "occupied v = (v \<noteq> Num 0)"

definition cellOutOfBounds :: "int \<Rightarrow> int \<Rightarrow> bool" where
  "cellOutOfBounds cx cy = (cx < 0 \<or> cx \<ge> BOARD_WIDTH \<or> cy \<ge> BOARD_HEIGHT)"

definition collides_spec :: "matrix \<Rightarrow> board \<Rightarrow> pos \<Rightarrow> bool" where
  "collides_spec shp b p =
     (\<exists>r \<in> set [0..<length shp]. \<exists>c \<in> set [0..<length (shp ! r)].
        occupied (shp ! r ! c) \<and>
        (cellOutOfBounds (posX p + int c) (posY p + int r) \<or>
         (posY p + int r \<ge> 0 \<and>
          b ! nat (posY p + int r) ! nat (posX p + int c) \<noteq> Num 0)))"

text \<open>A board as the data model has it: \<open>BOARD_HEIGHT\<close> rows of \<open>BOARD_WIDTH\<close> cells.\<close>

definition wfBoard :: "board \<Rightarrow> bool" where
  "wfBoard b = (int (length b) = BOARD_HEIGHT \<and>
     list_all (\<lambda>cells. int (length cells) = BOARD_WIDTH) b)"

text \<open>
  The three tests that the loop body of \<^verbatim>\<open>checkCollision\<close> makes for one occupied
  cell, at the board coordinate \<open>(boardX, boardY)\<close>.
\<close>

definition cellHit :: "board \<Rightarrow> int \<Rightarrow> int \<Rightarrow> bool" where
  "cellHit b boardX boardY =
     (boardX < 0 \<or> boardX \<ge> BOARD_WIDTH \<or> boardY \<ge> BOARD_HEIGHT \<or>
      (boardY \<ge> 0 \<and> nat boardY < length b \<and> js_get (b ! nat boardY) boardX \<noteq> Num 0))"

subsection \<open>Rotation\<close>

text \<open>Grids of \<open>n\<close> rows of \<open>n\<close> cells without holes.\<close>

definition squareGrid :: "nat \<Rightarrow> matrix \<Rightarrow> bool" where
  "squareGrid n mat = (length mat = n \<and> list_all (\<lambda>cells. length cells = n \<and> Hole \<notin> set cells) mat)"

text \<open>What the swap does to the value of a grid whose rows are different arrays.\<close>

definition swapValue :: "matrix \<Rightarrow> nat \<Rightarrow> nat \<Rightarrow> matrix" where
  "swapValue mat x y = (mat[x := (mat ! x)[y := mat ! y ! x]])[y := (mat ! y)[x := mat ! x ! y]]"

text \<open>
  The two loops of the transposition on such values: the inner loop for row \<open>y\<close> up to
  column \<open>k\<close>, the outer loop up to row \<open>k\<close>.
\<close>

definition innerLoop :: "nat \<Rightarrow> nat \<Rightarrow> matrix \<Rightarrow> matrix" where
  "innerLoop k y mat = fold (\<lambda>x mat'. swapValue mat' x y) [0..<k] mat"

definition outerLoop :: "nat \<Rightarrow> matrix \<Rightarrow> matrix" where
  "outerLoop k mat = fold (\<lambda>y mat'. innerLoop y y mat') [0..<k] mat"

text \<open>
  \<open>framed R h h'\<close>: from \<open>h\<close> to \<open>h'\<close> no array was created, no outer array changed, and
  only rows with a reference in \<open>R\<close> changed.
\<close>

definition framed :: "ref set \<Rightarrow> heap \<Rightarrow> heap \<Rightarrow> bool" where
  "framed R h h' = (gridOf h' = gridOf h \<and> lim h' = lim h \<and> (\<forall>r. r \<notin> R \<longrightarrow> rowsOf h' r = rowsOf h r))"

text \<open>The grid turned a quarter clockwise: its row \<open>i\<close> is column \<open>i\<close> read from the bottom.\<close>

definition clockwise :: "matrix \<Rightarrow> matrix" where
  "clockwise mat =
     map (\<lambda>i. map (\<lambda>j. mat ! (length mat - 1 - j) ! i) [0..<length mat]) [0..<length mat]"

subsection \<open>States\<close>

text \<open>A shape with at least one occupied cell.\<close>

definition hasBlock :: "matrix \<Rightarrow> bool" where
  "hasBlock shp = list_ex (list_ex (\<lambda>block. block \<noteq> Num 0)) shp"


text \<open>
  A piece that lies on the board: its offset is not above the top row, and every
  occupied cell is within the width and above the floor.
\<close>

definition inBounds :: "matrix \<Rightarrow> pos \<Rightarrow> bool" where
  "inBounds shp p =
     (0 \<le> posY p \<and>
      (\<forall>r < length shp. \<forall>c < length (shp ! r). shp ! r ! c \<noteq> Num 0 \<longrightarrow>
         0 \<le> posX p + int c \<and> posX p + int c < BOARD_WIDTH \<and> posY p + int r < BOARD_HEIGHT))"

text \<open>
  An occupied cell of the shape, placed at offset \<open>p\<close>, lands on the board cell in row
  \<open>r\<close> and column \<open>c\<close> (\<^verbatim>\<open>forEach\<close> passes over holes).
\<close>

definition covers :: "matrix \<Rightarrow> pos \<Rightarrow> nat \<Rightarrow> nat \<Rightarrow> bool" where
  "covers shp p r c =
     (\<exists>i < length shp. \<exists>j < length (shp ! i).
        shp ! i ! j \<noteq> Num 0 \<and> shp ! i ! j \<noteq> Hole
        \<and> posY p + int i = int r \<and> posX p + int j = int c)"




section \<open>Example states and runs\<close>

text \<open>
  A game of O pieces only. \<open>fallingO\<close> is the state after the start button: the first
  piece at its spawn offset on the empty board. \<open>droppingO\<close> is the state after a first
  frame at time 1, and \<open>restingO\<close> the state after a hard drop from there.
\<close>

definition fallingO :: game where
  "fallingO =
     \<lparr>board = createBoard, currentTetromino = Some (TETROMINOES O_key),
      currentPos = \<lparr>posX = 4, posY = 0\<rparr>, score = 0, gameOver = False, gameStarted = True,
      gameStartedRef = True, gameOverRef = False,
      currentTetrominoRef = Some (TETROMINOES O_key),
      currentPosRef = \<lparr>posX = 4, posY = 0\<rparr>, boardRef = createBoard,
      dropTimeRef = 0, lastTimeRef = 0\<rparr>"

definition droppingO :: game where
  "droppingO = fallingO\<lparr>lastTimeRef := 1\<rparr>"

definition restingO :: game where
  "restingO = fallingO\<lparr>currentPos := \<lparr>posX = 4, posY = 18\<rparr>,
                        currentPosRef := \<lparr>posX = 4, posY = 18\<rparr>, lastTimeRef := 1\<rparr>"

text \<open>\<open>landedO\<close> is what the Down key makes of \<open>restingO\<close> when the next piece is a T.\<close>

definition landedO :: game where
  "landedO =
     restingO\<lparr>board := replicate 18 emptyRow
                  @ replicate 2 (nums [0, 0, 0, 0] @ [Str ''yellow'', Str ''yellow''] @ nums [0, 0, 0, 0]),
              currentTetromino := Some (TETROMINOES T_key),
              currentPos := \<lparr>posX = 4, posY = 0\<rparr>\<rparr>"

text \<open>
  Nine times a hard drop and the frame that locks the piece one second later, and a
  tenth frame that locks the tenth piece where it spawned: the two middle columns are
  then full, and the eleventh piece is the active piece at its spawn offset, on top
  of the tenth.
\<close>

fun dropAndLock :: "nat \<Rightarrow> (event \<times> TetrominoKey) list" where
  "dropAndLock 0 = []"
| "dropAndLock (Suc n) =
     dropAndLock n @ [(KeyDown '' '', O_key), (Frame (1 + 1001 * real (Suc n)), O_key)]"

definition stackTrace :: "(event \<times> TetrominoKey) list" where
  "stackTrace = [(StartClick, O_key), (Frame 1, O_key)] @ dropAndLock 9 @ [(Frame 10011, O_key)]"

definition stackedBoard :: board where
  "stackedBoard =
     replicate 20 (nums [0, 0, 0, 0] @ [Str ''yellow'', Str ''yellow''] @ nums [0, 0, 0, 0])"

text \<open>
  \<open>tenthO\<close> is the state before the last frame of \<open>stackTrace\<close>: nine pieces are locked
  and the tenth is at its spawn offset, just above them. \<open>lockedTenth\<close> is the state in
  which that frame calls \<^verbatim>\<open>newTetromino()\<close>: the lock of the tenth piece is in \<open>board\<close>,
  and \<open>boardRef\<close> is still the board of the last render. \<open>overlappingO\<close> is the state
  after that frame.
\<close>

definition tenthO :: game where
  "tenthO =
     fallingO\<lparr>board := replicate 2 emptyRow @ drop 2 stackedBoard,
              boardRef := replicate 2 emptyRow @ drop 2 stackedBoard, lastTimeRef := 9010\<rparr>"

definition lockedTenth :: game where
  "lockedTenth = tenthO\<lparr>board := stackedBoard, lastTimeRef := 10011\<rparr>"

definition overlappingO :: game where
  "overlappingO = fallingO\<lparr>board := stackedBoard, boardRef := stackedBoard, lastTimeRef := 10011\<rparr>"

text \<open>
  \<open>toppedOut\<close> is the state one second later: the frame has locked the eleventh piece
  and the spawn attempt has failed.
\<close>

definition toppedOut :: game where
  "toppedOut = overlappingO\<lparr>gameOver := True, gameStarted := False,
                            gameOverRef := True, gameStartedRef := False,
                            lastTimeRef := 11012\<rparr>"

text \<open>
  A lock that completes three rows, two of them next to each other: the I piece,
  upright, comes down the left column of a board whose rows 16, 18 and 19 lack only
  that cell. In a pattern \<open>.\<close> is an empty cell, any other character a grey block.
\<close>

definition cellsOf :: "string \<Rightarrow> row" where
  "cellsOf pattern = map (\<lambda>ch. if ch = CHR ''.'' then Num 0 else Str ''grey'') pattern"

definition nearlyFullBoard :: board where
  "nearlyFullBoard =
     replicate 16 emptyRow
       @ [cellsOf ''.#########'', cellsOf ''.#..#..#..'', cellsOf ''.#########'', cellsOf ''.#########'']"

definition uprightI :: tetromino where
  "uprightI =
     \<lparr>shape = [nums [0, 0, 1, 0], nums [0, 0, 1, 0], nums [0, 0, 1, 0], nums [0, 0, 1, 0]],
      color = ''cyan''\<rparr>"

definition placedI :: board where
  "placedI =
     replicate 16 emptyRow
       @ [Str ''cyan'' # cellsOf ''#########'', Str ''cyan'' # cellsOf ''#..#..#..'',
          Str ''cyan'' # cellsOf ''#########'', Str ''cyan'' # cellsOf ''#########'']"

definition clearingGame :: game where
  "clearingGame =
     fallingO\<lparr>board := nearlyFullBoard, boardRef := nearlyFullBoard,
              currentTetromino := Some uprightI, currentTetrominoRef := Some uprightI,
              currentPos := \<lparr>posX = - 2, posY = 16\<rparr>,
              currentPosRef := \<lparr>posX = - 2, posY = 16\<rparr>\<rparr>"

definition clearedGame :: game where
  "clearedGame =
     fallingO\<lparr>board := replicate 19 emptyRow @ [Str ''cyan'' # cellsOf ''#..#..#..''],
              boardRef := replicate 19 emptyRow @ [Str ''cyan'' # cellsOf ''#..#..#..''],
              score := 300,
              currentTetromino := Some (TETROMINOES T_key),
              currentTetrominoRef := Some (TETROMINOES T_key)\<rparr>"

text \<open>
  Two stores for the examples: the T shape as its literal creates it (rows at
  references 0, 1 and 2, the outer array at 3), and a two by two grid with one
  occupied corner.
\<close>

definition storedT :: heap where
  "storedT =
     \<lparr>rowsOf = (\<lambda>_. [])(0 := nums [0, 1, 0], 1 := nums [1, 1, 1], 2 := nums [0, 0, 0]),
      gridOf = (\<lambda>_. [])(3 := [0, 1, 2]),
      lim = 4\<rparr>"

definition storedCorner :: heap where
  "storedCorner =
     \<lparr>rowsOf = (\<lambda>_. [])(0 := nums [1, 0], 1 := nums [0, 0]),
      gridOf = (\<lambda>_. [])(2 := [0, 1]),
      lim = 3\<rparr>"

section \<open>Properties of checkCollision\<close>

lemma js_read_nonzero [simp]: "(js_read v \<noteq> Num 0) = (v \<noteq> Num 0)"
  by (simp add: js_read_def)

lemma ex_less_Cons:
  "(\<exists>i < length (a # as). P i) = (P 0 \<or> (\<exists>i < length as. P (Suc i)))"
  by (metis (no_types, lifting) length_Cons less_Suc_eq_0_disj)

lemma checkCollisionRow_iff:
  "checkCollisionRow cells b x boardY col =
     (\<exists>i < length cells. cells ! i \<noteq> Num 0 \<and> cellHit b (x + col + int i) boardY)"
proof (induction cells arbitrary: col)
  case Nil
  then show ?case by simp
next
  case (Cons block rest)
  show ?case
    unfolding ex_less_Cons
    by (auto simp add: Cons.IH cellHit_def Let_def add.assoc add.commute add.left_commute)
qed

lemma checkCollisionRows_iff:
  "checkCollisionRows rs b x y row =
     (\<exists>r < length rs. \<exists>c < length (rs ! r).
        rs ! r ! c \<noteq> Num 0 \<and> cellHit b (x + int c) (y + row + int r))"
proof (induction rs arbitrary: row)
  case Nil
  then show ?case by simp
next
  case (Cons cells rest)
  show ?case
    unfolding ex_less_Cons
    by (auto simp add: Cons.IH checkCollisionRow_iff add.assoc add.commute add.left_commute)
qed

lemma checkCollision_iff:
  "checkCollision t b p =
     (\<exists>r < length t. \<exists>c < length (t ! r).
        t ! r ! c \<noteq> Num 0 \<and> cellHit b (posX p + int c) (posY p + int r))"
  by (simp add: checkCollision_def checkCollisionRows_iff)

lemma cellHit_wfBoard:
  assumes "wfBoard b"
  shows "cellHit b cx cy =
     (cellOutOfBounds cx cy \<or> (cy \<ge> 0 \<and> b ! nat cy ! nat cx \<noteq> Num 0))"
proof (cases "cellOutOfBounds cx cy")
  case True
  then show ?thesis by (auto simp: cellHit_def cellOutOfBounds_def)
next
  case False
  then have inb: "0 \<le> cx" "cx < BOARD_WIDTH" "cy < BOARD_HEIGHT"
    by (auto simp: cellOutOfBounds_def)
  show ?thesis
  proof (cases "0 \<le> cy")
    case True
    with inb assms have r: "nat cy < length b" by (auto simp: wfBoard_def)
    with assms have "int (length (b ! nat cy)) = BOARD_WIDTH"
      by (auto simp: wfBoard_def list_all_length)
    with inb have "js_get (b ! nat cy) cx = js_read (b ! nat cy ! nat cx)"
      by (simp add: js_get_def)
    with r True False inb show ?thesis by (simp add: cellHit_def)
  next
    case False
    with inb show ?thesis by (auto simp: cellHit_def cellOutOfBounds_def)
  qed
qed

lemma wfBoard_createBoard: "wfBoard createBoard"
  by (simp add: wfBoard_def createBoard_def emptyRow_def BOARD_HEIGHT_def BOARD_WIDTH_def list_all_iff)

text \<open>
  Claim C5. On a board of \<open>BOARD_HEIGHT\<close> rows of \<open>BOARD_WIDTH\<close> cells, \<^verbatim>\<open>checkCollision\<close>
  is true exactly when some occupied cell of the shape lands at x below 0, at x at or
  beyond the width, at y at or beyond the height, or at a y that is not negative on a
  board cell that is not empty. In particular an occupied cell outside these bounds
  makes it true on every board, whatever it holds, and when every occupied cell is
  above the board (y negative, x within the width) it is false on every board.
\<close>

theorem checkCollision_meets_spec:
  assumes "wfBoard b"
  shows "checkCollision shp b p = collides_spec shp b p
       \<and> ((\<exists>r \<in> set [0..<length shp]. \<exists>c \<in> set [0..<length (shp ! r)].
             occupied (shp ! r ! c) \<and> cellOutOfBounds (posX p + int c) (posY p + int r))
           \<longrightarrow> (\<forall>anyBoard. checkCollision shp anyBoard p))
       \<and> ((\<forall>r \<in> set [0..<length shp]. \<forall>c \<in> set [0..<length (shp ! r)].
             occupied (shp ! r ! c) \<longrightarrow>
               posY p + int r < 0 \<and> 0 \<le> posX p + int c \<and> posX p + int c < BOARD_WIDTH)
           \<longrightarrow> (\<forall>anyBoard. \<not> checkCollision shp anyBoard p))"
proof (intro conjI impI allI)
  show "checkCollision shp b p = collides_spec shp b p"
    by (simp add: checkCollision_iff collides_spec_def cellHit_wfBoard [OF assms] occupied_def Bex_def)
next
  fix anyBoard
  assume "\<exists>r \<in> set [0..<length shp]. \<exists>c \<in> set [0..<length (shp ! r)].
             occupied (shp ! r ! c) \<and> cellOutOfBounds (posX p + int c) (posY p + int r)"
  then show "checkCollision shp anyBoard p"
    unfolding checkCollision_iff cellHit_def cellOutOfBounds_def occupied_def Bex_def
    by simp blast
next
  fix anyBoard
  assume "\<forall>r \<in> set [0..<length shp]. \<forall>c \<in> set [0..<length (shp ! r)].
             occupied (shp ! r ! c) \<longrightarrow>
               posY p + int r < 0 \<and> 0 \<le> posX p + int c \<and> posX p + int c < BOARD_WIDTH"
  then show "\<not> checkCollision shp anyBoard p"
    by (fastforce simp: checkCollision_iff cellHit_def occupied_def BOARD_HEIGHT_def)
qed

text \<open>
  Three instances: the T piece at its spawn offset on the empty board, the T piece one
  column left of the board, and the O piece two rows above a board that is full.
\<close>

theorem checkCollision_meets_spec_witness:
  "wfBoard createBoard
   \<and> checkCollision (shape (TETROMINOES T_key)) createBoard \<lparr>posX = 4, posY = 0\<rparr>
       = collides_spec (shape (TETROMINOES T_key)) createBoard \<lparr>posX = 4, posY = 0\<rparr>
   \<and> checkCollision (shape (TETROMINOES T_key)) [] \<lparr>posX = - 1, posY = 0\<rparr>
   \<and> \<not> checkCollision (shape (TETROMINOES O_key))
         (replicate 20 (replicate 10 (Str ''red''))) \<lparr>posX = 4, posY = - 2\<rparr>"
proof -
  let ?T = "shape (TETROMINOES T_key)" and ?O = "shape (TETROMINOES O_key)"
  let ?p = "\<lparr>posX = - 1, posY = 0\<rparr>" and ?q = "\<lparr>posX = 4, posY = - 2\<rparr>"
  have out: "\<exists>r \<in> set [0..<length ?T]. \<exists>c \<in> set [0..<length (?T ! r)].
        occupied (?T ! r ! c) \<and> cellOutOfBounds (posX ?p + int c) (posY ?p + int r)"
    by code_simp
  have above: "\<forall>r \<in> set [0..<length ?O]. \<forall>c \<in> set [0..<length (?O ! r)].
        occupied (?O ! r ! c) \<longrightarrow>
          posY ?q + int r < 0 \<and> 0 \<le> posX ?q + int c \<and> posX ?q + int c < BOARD_WIDTH"
    by code_simp
  from checkCollision_meets_spec [OF wfBoard_createBoard, of ?T "\<lparr>posX = 4, posY = 0\<rparr>"]
       checkCollision_meets_spec [OF wfBoard_createBoard, of ?T ?p] out
       checkCollision_meets_spec [OF wfBoard_createBoard, of ?O ?q] above
  show ?thesis
    using wfBoard_createBoard by blast
qed

section \<open>Properties of rotate\<close>

subsection \<open>The transposition on values\<close>

lemma squareGrid_nth:
  "squareGrid n mat \<Longrightarrow> i < n \<Longrightarrow> length (mat ! i) = n \<and> Hole \<notin> set (mat ! i)"
  by (simp add: squareGrid_def list_all_length)

lemma squareGrid_cell:
  "squareGrid n mat \<Longrightarrow> i < n \<Longrightarrow> j < n \<Longrightarrow> mat ! i ! j \<noteq> Hole"
  by (metis squareGrid_nth nth_mem)

lemma squareGrid_swapValue:
  assumes "squareGrid n mat" "x < n" "y < n"
  shows "squareGrid n (swapValue mat x y)"
proof -
  have len: "length mat = n" using assms(1) by (simp add: squareGrid_def)
  have rows: "\<And>i. i < n \<Longrightarrow> length (mat ! i) = n \<and> Hole \<notin> set (mat ! i)"
    using assms(1) by (rule squareGrid_nth)
  have cells: "\<And>i j. i < n \<Longrightarrow> j < n \<Longrightarrow> mat ! i ! j \<noteq> Hole"
    using assms(1) by (rule squareGrid_cell)
  have upd: "length (cells[j := v]) = n \<and> Hole \<notin> set (cells[j := v])"
    if "length cells = n" "Hole \<notin> set cells" "v \<noteq> Hole" for cells :: row and j v
    using that set_update_subset_insert [of cells j v] by auto
  show ?thesis
    unfolding squareGrid_def swapValue_def list_all_length
    using len rows cells assms(2,3) upd
    by (auto simp: nth_list_update)
qed

lemma swapValue_nth:
  assumes "squareGrid n mat" "x < n" "y < n" "x \<noteq> y" "i < n" "j < n"
  shows "swapValue mat x y ! i ! j =
     (if i = x \<and> j = y then mat ! y ! x else if i = y \<and> j = x then mat ! x ! y else mat ! i ! j)"
proof -
  have len: "length mat = n" using assms(1) by (simp add: squareGrid_def)
  have rows: "\<And>i. i < n \<Longrightarrow> length (mat ! i) = n"
    using assms(1) squareGrid_nth by blast
  show ?thesis
    unfolding swapValue_def using len rows assms(2-)
    by (auto simp: nth_list_update)
qed

lemma innerLoop_Suc: "innerLoop (Suc k) y mat = swapValue (innerLoop k y mat) k y"
  by (simp add: innerLoop_def)

lemma outerLoop_Suc: "outerLoop (Suc k) mat = innerLoop k k (outerLoop k mat)"
  by (simp add: outerLoop_def)

lemma innerLoop_spec:
  assumes "squareGrid n mat" "y < n" "k \<le> y"
  shows "squareGrid n (innerLoop k y mat) \<and>
    (\<forall>i < n. \<forall>j < n. innerLoop k y mat ! i ! j =
       (if i = y \<and> j < k then mat ! j ! y else if j = y \<and> i < k then mat ! y ! i else mat ! i ! j))"
  using assms(3)
proof (induction k)
  case 0
  show ?case using assms(1) by (simp add: innerLoop_def)
next
  case (Suc k)
  then have k: "k < y" "k \<le> y" by simp_all
  from Suc.IH [OF k(2)] have sq: "squareGrid n (innerLoop k y mat)"
    and cells: "\<And>i j. i < n \<Longrightarrow> j < n \<Longrightarrow> innerLoop k y mat ! i ! j =
       (if i = y \<and> j < k then mat ! j ! y else if j = y \<and> i < k then mat ! y ! i else mat ! i ! j)"
    by blast+
  have kn: "k < n" using k(1) assms(2) by simp
  have ky: "k \<noteq> y" using k(1) by simp
  show ?case
  proof (intro conjI allI impI)
    show "squareGrid n (innerLoop (Suc k) y mat)"
      unfolding innerLoop_Suc by (rule squareGrid_swapValue [OF sq kn assms(2)])
  next
    fix i j assume ij: "i < n" "j < n"
    show "innerLoop (Suc k) y mat ! i ! j =
       (if i = y \<and> j < Suc k then mat ! j ! y else if j = y \<and> i < Suc k then mat ! y ! i else mat ! i ! j)"
      unfolding innerLoop_Suc swapValue_nth [OF sq kn assms(2) ky ij]
      using cells [OF ij] cells [OF assms(2) kn] cells [OF kn assms(2)] k(1)
      by (auto simp: less_Suc_eq)
  qed
qed

lemma outerLoop_spec:
  assumes "squareGrid n mat" "k \<le> n"
  shows "squareGrid n (outerLoop k mat) \<and>
    (\<forall>i < n. \<forall>j < n. outerLoop k mat ! i ! j = (if i < k \<and> j < k then mat ! j ! i else mat ! i ! j))"
  using assms(2)
proof (induction k)
  case 0
  show ?case using assms(1) by (simp add: outerLoop_def)
next
  case (Suc k)
  then have kn: "k < n" "k \<le> n" by simp_all
  from Suc.IH [OF kn(2)] have sq: "squareGrid n (outerLoop k mat)"
    and cells: "\<And>i j. i < n \<Longrightarrow> j < n \<Longrightarrow> outerLoop k mat ! i ! j =
       (if i < k \<and> j < k then mat ! j ! i else mat ! i ! j)"
    by blast+
  from innerLoop_spec [OF sq kn(1) order_refl] have sq': "squareGrid n (innerLoop k k (outerLoop k mat))"
    and inner: "\<And>i j. i < n \<Longrightarrow> j < n \<Longrightarrow> innerLoop k k (outerLoop k mat) ! i ! j =
       (if i = k \<and> j < k then outerLoop k mat ! j ! k
        else if j = k \<and> i < k then outerLoop k mat ! k ! i else outerLoop k mat ! i ! j)"
    by blast+
  show ?case
  proof (intro conjI allI impI)
    show "squareGrid n (outerLoop (Suc k) mat)" unfolding outerLoop_Suc by (rule sq')
  next
    fix i j assume ij: "i < n" "j < n"
    show "outerLoop (Suc k) mat ! i ! j = (if i < Suc k \<and> j < Suc k then mat ! j ! i else mat ! i ! j)"
      unfolding outerLoop_Suc inner [OF ij]
      using cells [OF ij] cells [OF ij(2) kn(1)] cells [OF kn(1) ij(1)] cells [OF ij(2) ij(1)]
      by (auto simp: less_Suc_eq)
  qed
qed

subsection \<open>What rotate leaves alone\<close>

lemma framed_refl: "framed R h h"
  by (simp add: framed_def)

lemma framed_trans: "framed R h h1 \<Longrightarrow> framed R h1 h2 \<Longrightarrow> framed R h h2"
  by (simp add: framed_def)

lemma framed_mono: "framed R h h' \<Longrightarrow> R \<subseteq> R' \<Longrightarrow> framed R' h h'"
  by (auto simp: framed_def)

lemma swapCells_framed:
  assumes "x < length (gridOf h m)" "y < length (gridOf h m)"
  shows "framed (set (gridOf h m)) h (swapCells h m x y)"
  using assms by (auto simp: framed_def swapCells_def Let_def)

lemma innerFold_framed:
  assumes "y < length (gridOf h m)" "k \<le> y"
  shows "framed (set (gridOf h m)) h (fold (\<lambda>x h'. swapCells h' m x y) [0..<k] h)"
  using assms(2)
proof (induction k)
  case 0
  show ?case by (simp add: framed_refl)
next
  case (Suc k)
  let ?h1 = "fold (\<lambda>x h'. swapCells h' m x y) [0..<k] h"
  from Suc have fr: "framed (set (gridOf h m)) h ?h1" by simp
  then have same: "gridOf ?h1 = gridOf h" by (simp add: framed_def)
  have "framed (set (gridOf ?h1 m)) ?h1 (swapCells ?h1 m k y)"
    using Suc.prems assms(1) by (intro swapCells_framed) (simp_all add: same)
  then have "framed (set (gridOf h m)) ?h1 (swapCells ?h1 m k y)" by (simp add: same)
  from framed_trans [OF fr this] show ?case by simp
qed

lemma outerFold_framed:
  assumes "k \<le> length (gridOf h m)"
  shows "framed (set (gridOf h m)) h
           (fold (\<lambda>y h'. fold (\<lambda>x h''. swapCells h'' m x y) [0..<y] h') [0..<k] h)"
  using assms
proof (induction k)
  case 0
  show ?case by (simp add: framed_refl)
next
  case (Suc k)
  let ?h1 = "fold (\<lambda>y h'. fold (\<lambda>x h''. swapCells h'' m x y) [0..<y] h') [0..<k] h"
  from Suc have fr: "framed (set (gridOf h m)) h ?h1" by simp
  then have same: "gridOf ?h1 = gridOf h" by (simp add: framed_def)
  have "framed (set (gridOf ?h1 m)) ?h1 (fold (\<lambda>x h'. swapCells h' m x k) [0..<k] ?h1)"
    using Suc.prems by (intro innerFold_framed) (simp_all add: same)
  then have "framed (set (gridOf h m)) ?h1 (fold (\<lambda>x h'. swapCells h' m x k) [0..<k] ?h1)"
    by (simp add: same)
  from framed_trans [OF fr this] show ?case by simp
qed

lemma transposeInPlace_framed: "framed (set (gridOf h m)) h (transposeInPlace h m)"
  unfolding transposeInPlace_def by (rule outerFold_framed) simp

lemma reverseFold_framed: "framed (set rs) h (fold (\<lambda>r h'. reverseRow h' r) rs h)"
proof (induction rs arbitrary: h)
  case Nil
  show ?case by (simp add: framed_refl)
next
  case (Cons r rs)
  have one: "framed (set (r # rs)) h (reverseRow h r)"
    by (simp add: framed_def reverseRow_def)
  have "framed (set (r # rs)) (reverseRow h r) (fold (\<lambda>r h'. reverseRow h' r) rs (reverseRow h r))"
    by (rule framed_mono [OF Cons.IH]) auto
  from framed_trans [OF one this] show ?case by simp
qed

lemma rotate_frame:
  assumes "rotate h m dir = (h', res)"
  shows "(\<forall>r. r \<notin> set (gridOf h m) \<longrightarrow> rowsOf h' r = rowsOf h r)
       \<and> (\<forall>g. g \<noteq> m \<and> g \<noteq> lim h \<longrightarrow> gridOf h' g = gridOf h g)
       \<and> (res = m \<or> res = lim h)
       \<and> set (gridOf h' res) = set (gridOf h m)"
proof -
  let ?h1 = "transposeInPlace h m"
  have f1: "framed (set (gridOf h m)) h ?h1" by (rule transposeInPlace_framed)
  then have g1: "gridOf ?h1 = gridOf h" and l1: "lim ?h1 = lim h" by (simp_all add: framed_def)
  show ?thesis
  proof (cases "dir > 0")
    case True
    let ?h2 = "fold (\<lambda>r h'. reverseRow h' r) (gridOf ?h1 m) ?h1"
    have "framed (set (gridOf h m)) ?h1 ?h2" using reverseFold_framed [of "gridOf ?h1 m" ?h1] by (simp add: g1)
    with f1 have f2: "framed (set (gridOf h m)) h ?h2" by (rule framed_trans)
    from assms True have "h' = fst (alloc_grid ?h2 (gridOf h m))" "res = lim ?h2"
      by (auto simp: rotate_def Let_def g1 alloc_grid_def)
    with f2 show ?thesis by (auto simp: framed_def alloc_grid_def)
  next
    case False
    with assms have "h' = ?h1\<lparr>gridOf := (gridOf ?h1)(m := rev (gridOf ?h1 m))\<rparr>" "res = m"
      by (auto simp: rotate_def Let_def)
    with f1 show ?thesis by (auto simp: framed_def)
  qed
qed

subsection \<open>Copies and literals are new arrays\<close>

lemma copyRows_spec:
  assumes "copyRows h rs = (h', rs')"
  shows "lim h \<le> lim h' \<and> gridOf h' = gridOf h
       \<and> (\<forall>r < lim h. rowsOf h' r = rowsOf h r)
       \<and> (\<forall>r \<in> set rs'. lim h \<le> r \<and> r < lim h')
       \<and> distinct rs'
       \<and> ((\<forall>r \<in> set rs. r < lim h) \<longrightarrow> map (rowsOf h') rs' = map (\<lambda>r. spread (rowsOf h r)) rs)"
  using assms
proof (induction rs arbitrary: h h' rs')
  case Nil
  then show ?case by simp
next
  case (Cons r rs)
  let ?h1 = "h\<lparr>rowsOf := (rowsOf h)(lim h := spread (rowsOf h r)), lim := Suc (lim h)\<rparr>"
  from Cons.prems obtain h2 rs2 where
    rest: "copyRows ?h1 rs = (h2, rs2)" and res: "h' = h2" "rs' = lim h # rs2"
    by (auto simp: alloc_row_def Let_def split: prod.splits)
  from Cons.IH [OF rest] have
    a: "Suc (lim h) \<le> lim h2" and b: "gridOf h2 = gridOf h"
    and c: "\<forall>r' < Suc (lim h). rowsOf h2 r' = rowsOf ?h1 r'"
    and d: "\<forall>r' \<in> set rs2. Suc (lim h) \<le> r' \<and> r' < lim h2"
    and e: "distinct rs2"
    and f: "(\<forall>r' \<in> set rs. r' < Suc (lim h)) \<longrightarrow> map (rowsOf h2) rs2 = map (\<lambda>r'. spread (rowsOf ?h1 r')) rs"
    by simp_all
  show ?case
  proof (intro conjI impI)
    show "lim h \<le> lim h'" using a res by simp
    show "gridOf h' = gridOf h" using b res by simp
    show "\<forall>r' < lim h. rowsOf h' r' = rowsOf h r'" using c res by simp
    show "\<forall>r' \<in> set rs'. lim h \<le> r' \<and> r' < lim h'" using a d res by auto
    show "distinct rs'" using d e res by auto
  next
    assume old: "\<forall>r' \<in> set (r # rs). r' < lim h"
    then have "map (rowsOf h2) rs2 = map (\<lambda>r'. spread (rowsOf ?h1 r')) rs" using f by auto
    also have "\<dots> = map (\<lambda>r'. spread (rowsOf h r')) rs" using old by auto
    finally show "map (rowsOf h') rs' = map (\<lambda>r'. spread (rowsOf h r')) (r # rs)"
      using c res by simp
  qed
qed

lemma storeRows_spec:
  assumes "storeRows h mat = (h', rs)"
  shows "lim h \<le> lim h' \<and> gridOf h' = gridOf h
       \<and> (\<forall>r < lim h. rowsOf h' r = rowsOf h r)
       \<and> (\<forall>r \<in> set rs. lim h \<le> r \<and> r < lim h')
       \<and> distinct rs
       \<and> map (rowsOf h') rs = mat"
  using assms
proof (induction mat arbitrary: h h' rs)
  case Nil
  then show ?case by simp
next
  case (Cons cells mat)
  let ?h1 = "h\<lparr>rowsOf := (rowsOf h)(lim h := cells), lim := Suc (lim h)\<rparr>"
  from Cons.prems obtain h2 rs2 where
    rest: "storeRows ?h1 mat = (h2, rs2)" and res: "h' = h2" "rs = lim h # rs2"
    by (auto simp: alloc_row_def Let_def split: prod.splits)
  from Cons.IH [OF rest] have
    a: "Suc (lim h) \<le> lim h2" and b: "gridOf h2 = gridOf h"
    and c: "\<forall>r' < Suc (lim h). rowsOf h2 r' = rowsOf ?h1 r'"
    and d: "\<forall>r' \<in> set rs2. Suc (lim h) \<le> r' \<and> r' < lim h2"
    and e: "distinct rs2"
    and f: "map (rowsOf h2) rs2 = mat"
    by simp_all
  show ?case
    using a b c d e f res by auto
qed

subsection \<open>The value that rotate computes\<close>

lemma map_fun_upd_nth:
  assumes "distinct rs" "i < length rs"
  shows "map (f(rs ! i := v)) rs = (map f rs)[i := v]"
proof (rule nth_equalityI)
  show "length (map (f(rs ! i := v)) rs) = length ((map f rs)[i := v])" by simp
next
  fix j assume "j < length (map (f(rs ! i := v)) rs)"
  then have j: "j < length rs" by simp
  show "map (f(rs ! i := v)) rs ! j = (map f rs)[i := v] ! j"
    using assms j by (auto simp: nth_list_update nth_eq_iff_index_eq)
qed

lemma js_get_inside:
  assumes "i < length cells" "Hole \<notin> set cells"
  shows "js_get cells (int i) = cells ! i"
proof -
  from assms have "cells ! i \<noteq> Hole" by (metis nth_mem)
  with assms(1) show ?thesis by (simp add: js_get_def js_read_def)
qed

lemma js_set_inside:
  "i < length cells \<Longrightarrow> js_set cells (int i) v = cells[i := v]"
  by (simp add: js_set_def)

lemma swapCells_value:
  assumes "distinct (gridOf h m)" "squareGrid n (matrixOf h m)" "x < n" "y < n" "x \<noteq> y"
  shows "matrixOf (swapCells h m x y) m = swapValue (matrixOf h m) x y"
proof -
  let ?rs = "gridOf h m"
  have len: "length ?rs = n" using assms(2) by (simp add: squareGrid_def matrixOf_def)
  have row: "length (rowsOf h (?rs ! i)) = n \<and> Hole \<notin> set (rowsOf h (?rs ! i))" if "i < n" for i
    using squareGrid_nth [OF assms(2) that] that len by (simp add: matrixOf_def)
  have ne: "?rs ! x \<noteq> ?rs ! y"
    using assms(1,3,4,5) len by (simp add: nth_eq_iff_index_eq)
  have gx: "js_get (rowsOf h (?rs ! y)) (int x) = rowsOf h (?rs ! y) ! x"
    using row [OF assms(4)] assms(3) by (simp add: js_get_inside)
  have gy: "js_get (rowsOf h (?rs ! x)) (int y) = rowsOf h (?rs ! x) ! y"
    using row [OF assms(3)] assms(4) by (simp add: js_get_inside)
  have sx: "js_set (rowsOf h (?rs ! x)) (int y) v = (rowsOf h (?rs ! x))[y := v]" for v
    using row [OF assms(3)] assms(4) by (simp add: js_set_inside)
  have sy: "js_set (rowsOf h (?rs ! y)) (int x) v = (rowsOf h (?rs ! y))[x := v]" for v
    using row [OF assms(4)] assms(3) by (simp add: js_set_inside)
  have "matrixOf (swapCells h m x y) m =
      map ((rowsOf h)(?rs ! x := (rowsOf h (?rs ! x))[y := rowsOf h (?rs ! y) ! x],
                      ?rs ! y := (rowsOf h (?rs ! y))[x := rowsOf h (?rs ! x) ! y])) ?rs"
    using ne by (simp add: matrixOf_def swapCells_def Let_def gx gy sx sy)
  also have "\<dots> = ((map (rowsOf h) ?rs)[x := (rowsOf h (?rs ! x))[y := rowsOf h (?rs ! y) ! x]])
                       [y := (rowsOf h (?rs ! y))[x := rowsOf h (?rs ! x) ! y]]"
    using assms(1,3,4) len by (simp add: map_fun_upd_nth)
  also have "\<dots> = swapValue (matrixOf h m) x y"
    using assms(3,4) len by (simp add: swapValue_def matrixOf_def)
  finally show ?thesis .
qed

lemma innerFold_value:
  assumes "distinct (gridOf h m)" "squareGrid n (matrixOf h m)" "y < n" "k \<le> y"
  shows "matrixOf (fold (\<lambda>x h'. swapCells h' m x y) [0..<k] h) m = innerLoop k y (matrixOf h m)"
  using assms(4)
proof (induction k)
  case 0
  show ?case by (simp add: innerLoop_def)
next
  case (Suc k)
  let ?h1 = "fold (\<lambda>x h'. swapCells h' m x y) [0..<k] h"
  from Suc have val: "matrixOf ?h1 m = innerLoop k y (matrixOf h m)" and k: "k < y" "k \<le> y" by simp_all
  have len: "length (gridOf h m) = n" using assms(2) by (simp add: squareGrid_def matrixOf_def)
  have "framed (set (gridOf h m)) h ?h1"
    using innerFold_framed [of y h m k] assms(3) k(2) len by simp
  then have same: "gridOf ?h1 = gridOf h" by (simp add: framed_def)
  have sq: "squareGrid n (matrixOf ?h1 m)"
    using innerLoop_spec [OF assms(2,3) k(2)] val by simp
  have "matrixOf (swapCells ?h1 m k y) m = swapValue (matrixOf ?h1 m) k y"
    using assms(1,3) k(1) sq by (intro swapCells_value [where n = n]) (simp_all add: same)
  then show ?case by (simp add: val innerLoop_Suc)
qed

lemma outerFold_value:
  assumes "distinct (gridOf h m)" "squareGrid n (matrixOf h m)" "k \<le> n"
  shows "matrixOf (fold (\<lambda>y h'. fold (\<lambda>x h''. swapCells h'' m x y) [0..<y] h') [0..<k] h) m
           = outerLoop k (matrixOf h m)"
  using assms(3)
proof (induction k)
  case 0
  show ?case by (simp add: outerLoop_def)
next
  case (Suc k)
  let ?h1 = "fold (\<lambda>y h'. fold (\<lambda>x h''. swapCells h'' m x y) [0..<y] h') [0..<k] h"
  from Suc have val: "matrixOf ?h1 m = outerLoop k (matrixOf h m)" and k: "k < n" "k \<le> n" by simp_all
  have len: "length (gridOf h m) = n" using assms(2) by (simp add: squareGrid_def matrixOf_def)
  have "framed (set (gridOf h m)) h ?h1"
    using outerFold_framed [of k h m] k(2) len by simp
  then have same: "gridOf ?h1 = gridOf h" by (simp add: framed_def)
  have sq: "squareGrid n (matrixOf ?h1 m)"
    using outerLoop_spec [OF assms(2) k(2)] val by simp
  have "matrixOf (fold (\<lambda>x h'. swapCells h' m x k) [0..<k] ?h1) m = innerLoop k k (matrixOf ?h1 m)"
    using assms(1) k(1) sq by (intro innerFold_value [where n = n]) (simp_all add: same)
  then show ?case by (simp add: val outerLoop_Suc)
qed

lemma reverseFold_value:
  assumes "distinct rs"
  shows "map (rowsOf (fold (\<lambda>r h'. reverseRow h' r) rs h)) rs = map (\<lambda>r. rev (rowsOf h r)) rs"
  using assms
proof (induction rs arbitrary: h)
  case Nil
  show ?case by simp
next
  case (Cons r rs)
  let ?h1 = "reverseRow h r"
  let ?h2 = "fold (\<lambda>r h'. reverseRow h' r) rs ?h1"
  from Cons.prems have d: "distinct rs" and nr: "r \<notin> set rs" by simp_all
  have "framed (set rs) ?h1 ?h2" by (rule reverseFold_framed)
  with nr have head: "rowsOf ?h2 r = rev (rowsOf h r)" by (simp add: framed_def reverseRow_def)
  have "map (rowsOf ?h2) rs = map (\<lambda>r'. rev (rowsOf ?h1 r')) rs" by (rule Cons.IH [OF d])
  also have "\<dots> = map (\<lambda>r'. rev (rowsOf h r')) rs"
    using nr by (auto simp: reverseRow_def)
  finally show ?case using head by simp
qed

lemma clockwise_nth:
  "i < length mat \<Longrightarrow> j < length mat \<Longrightarrow> clockwise mat ! i ! j = mat ! (length mat - 1 - j) ! i"
  by (simp add: clockwise_def)

lemma squareGrid_clockwise:
  assumes "squareGrid n mat"
  shows "squareGrid n (clockwise mat)"
proof -
  have len: "length mat = n" using assms by (simp add: squareGrid_def)
  have "mat ! (n - 1 - j) ! i \<noteq> Hole" if "i < n" "j < n" for i j
    using squareGrid_cell [OF assms, of "n - 1 - j" i] that by simp
  then have "Hole \<notin> set (map (\<lambda>j. mat ! (n - 1 - j) ! i) [0..<n])" if "i < n" for i
    using that by (metis (mono_tags, lifting) atLeastLessThan_iff imageE list.set_map set_upt)
  then show ?thesis
    by (simp add: squareGrid_def clockwise_def len list_all_iff)
qed

lemma reversed_transpose_is_clockwise:
  assumes "squareGrid n mat"
  shows "map rev (outerLoop n mat) = clockwise mat"
proof -
  have len: "length mat = n" using assms by (simp add: squareGrid_def)
  from outerLoop_spec [OF assms order_refl] have sq: "squareGrid n (outerLoop n mat)"
    and cells: "\<And>i j. i < n \<Longrightarrow> j < n \<Longrightarrow> outerLoop n mat ! i ! j = mat ! j ! i"
    by auto
  have lenT: "length (outerLoop n mat) = n" using sq by (simp add: squareGrid_def)
  show ?thesis
  proof (rule nth_equalityI)
    show "length (map rev (outerLoop n mat)) = length (clockwise mat)"
      by (simp add: lenT clockwise_def len)
  next
    fix i assume "i < length (map rev (outerLoop n mat))"
    then have i: "i < n" by (simp add: lenT)
    have rowlen: "length (outerLoop n mat ! i) = n" using squareGrid_nth [OF sq i] by simp
    show "map rev (outerLoop n mat) ! i = clockwise mat ! i"
    proof (rule nth_equalityI)
      show "length (map rev (outerLoop n mat) ! i) = length (clockwise mat ! i)"
        using i by (simp add: lenT rowlen clockwise_def len)
    next
      fix j assume "j < length (map rev (outerLoop n mat) ! i)"
      then have j: "j < n" using i by (simp add: lenT rowlen)
      then have "n - Suc j < n" by simp
      from cells [OF i this] show "map rev (outerLoop n mat) ! i ! j = clockwise mat ! i ! j"
        using i j by (simp add: lenT rowlen rev_nth clockwise_nth len)
    qed
  qed
qed

lemma rotate_value:
  assumes "distinct (gridOf h m)" "squareGrid n (matrixOf h m)" "dir > 0"
    and "rotate h m dir = (h', res)"
  shows "gridOf h' res = gridOf h m \<and> matrixOf h' res = clockwise (matrixOf h m)"
proof -
  let ?h1 = "transposeInPlace h m"
  let ?h2 = "fold (\<lambda>r h'. reverseRow h' r) (gridOf h m) ?h1"
  have len: "length (gridOf h m) = n" using assms(2) by (simp add: squareGrid_def matrixOf_def)
  have f1: "framed (set (gridOf h m)) h ?h1" by (rule transposeInPlace_framed)
  then have g1: "gridOf ?h1 = gridOf h" by (simp add: framed_def)
  have v1: "matrixOf ?h1 m = outerLoop n (matrixOf h m)"
    unfolding transposeInPlace_def len by (rule outerFold_value [OF assms(1,2) order_refl])
  have "framed (set (gridOf h m)) ?h1 ?h2" by (rule reverseFold_framed)
  then have g2: "gridOf ?h2 = gridOf h" by (simp add: framed_def g1)
  have v2: "map (rowsOf ?h2) (gridOf h m) = map rev (matrixOf ?h1 m)"
    using reverseFold_value [OF assms(1), of ?h1] by (simp add: matrixOf_def g1)
  from assms(3,4) have h': "h' = fst (alloc_grid ?h2 (gridOf h m))" and res: "res = lim ?h2"
    by (auto simp: rotate_def Let_def g1 alloc_grid_def)
  have "gridOf h' res = gridOf h m" by (simp add: h' res alloc_grid_def)
  moreover have "matrixOf h' res = map (rowsOf ?h2) (gridOf h m)"
    by (simp add: matrixOf_def h' res alloc_grid_def)
  ultimately show ?thesis
    by (simp add: v2 v1 reversed_transpose_is_clockwise [OF assms(2)])
qed

lemma clockwise_four_times:
  assumes "squareGrid n mat"
  shows "clockwise (clockwise (clockwise (clockwise mat))) = mat"
proof -
  let ?m1 = "clockwise mat" let ?m2 = "clockwise ?m1" let ?m3 = "clockwise ?m2" let ?m4 = "clockwise ?m3"
  have sq1: "squareGrid n ?m1" by (rule squareGrid_clockwise [OF assms])
  have sq2: "squareGrid n ?m2" by (rule squareGrid_clockwise [OF sq1])
  have sq3: "squareGrid n ?m3" by (rule squareGrid_clockwise [OF sq2])
  have sq4: "squareGrid n ?m4" by (rule squareGrid_clockwise [OF sq3])
  have len: "length mat = n" "length ?m1 = n" "length ?m2 = n" "length ?m3 = n" "length ?m4 = n"
    using assms sq1 sq2 sq3 sq4 by (simp_all add: squareGrid_def)
  have cell: "?m4 ! i ! j = mat ! i ! j" if ij: "i < n" "j < n" for i j
  proof -
    have a: "n - 1 - j < n" "n - 1 - i < n" using ij by simp_all
    have "?m4 ! i ! j = ?m3 ! (n - 1 - j) ! i" using ij by (simp add: clockwise_nth len)
    also have "\<dots> = ?m2 ! (n - 1 - i) ! (n - 1 - j)" using ij a by (simp add: clockwise_nth len)
    also have "\<dots> = ?m1 ! (n - 1 - (n - 1 - j)) ! (n - 1 - i)" using ij a by (simp add: clockwise_nth len)
    also have "\<dots> = ?m1 ! j ! (n - 1 - i)" using ij by simp
    also have "\<dots> = mat ! (n - 1 - (n - 1 - i)) ! j" using ij a by (simp add: clockwise_nth len)
    also have "\<dots> = mat ! i ! j" using ij by simp
    finally show ?thesis .
  qed
  show ?thesis
  proof (rule nth_equalityI)
    show "length ?m4 = length mat" by (simp add: len)
  next
    fix i assume "i < length ?m4"
    then have i: "i < n" by (simp add: len)
    show "?m4 ! i = mat ! i"
    proof (rule nth_equalityI)
      show "length (?m4 ! i) = length (mat ! i)"
        using squareGrid_nth [OF sq4 i] squareGrid_nth [OF assms i] by simp
    next
      fix j assume "j < length (?m4 ! i)"
      then have "j < n" using squareGrid_nth [OF sq4 i] by simp
      with i show "?m4 ! i ! j = mat ! i ! j" by (rule cell)
    qed
  qed
qed

lemma spread_no_holes: "Hole \<notin> set cells \<Longrightarrow> spread cells = cells"
  by (induction cells) (auto simp: spread_def js_read_def)

lemma squareGrid_spread: "squareGrid n mat \<Longrightarrow> map spread mat = mat"
  by (auto simp: squareGrid_def list_all_iff spread_no_holes intro: map_idI)

lemma rotatedCopy_clockwise:
  assumes "squareGrid n shp"
  shows "rotatedCopy shp = clockwise shp"
proof -
  obtain h0a rs0 where st: "storeRows emptyHeap shp = (h0a, rs0)" by (cases "storeRows emptyHeap shp")
  let ?h0 = "fst (alloc_grid h0a rs0)" and ?m = "lim h0a"
  from storeRows_spec [OF st] have
    s1: "\<forall>r \<in> set rs0. r < lim h0a" and s2: "map (rowsOf h0a) rs0 = shp"
    by auto
  have m0: "gridOf ?h0 ?m = rs0" "rowsOf ?h0 = rowsOf h0a" "lim ?h0 = Suc (lim h0a)"
    by (simp_all add: alloc_grid_def)
  obtain h1a rs1 where cp: "copyRows ?h0 rs0 = (h1a, rs1)" by (cases "copyRows ?h0 rs0")
  let ?h1 = "fst (alloc_grid h1a rs1)" and ?c = "lim h1a"
  from copyRows_spec [OF cp] s1 have
    c1: "distinct rs1" and c2: "map (rowsOf h1a) rs1 = map (\<lambda>r. spread (rowsOf ?h0 r)) rs0"
    by (auto simp: m0)
  have "map (\<lambda>r. spread (rowsOf ?h0 r)) rs0 = map spread (map (rowsOf h0a) rs0)"
    by (simp add: m0)
  with c2 s2 have c3: "map (rowsOf h1a) rs1 = shp"
    by (simp add: squareGrid_spread [OF assms])
  have m1: "gridOf ?h1 ?c = rs1" "matrixOf ?h1 ?c = shp"
    using c3 by (simp_all add: alloc_grid_def matrixOf_def)
  obtain h2 res where rt: "rotate ?h1 ?c 1 = (h2, res)" by (cases "rotate ?h1 ?c 1")
  from rotate_value [OF _ _ _ rt, of n] c1 m1 assms
  have "matrixOf h2 res = clockwise shp" by simp
  moreover have "rotatedCopy shp = matrixOf h2 res"
    using st cp rt by (simp add: rotatedCopy_def storeMatrix_def copyMatrix_def m0 alloc_grid_def)
  ultimately show ?thesis by simp
qed

subsection \<open>The two claims about rotation\<close>

lemma storedT_is_literal: "storeMatrix emptyHeap (shape (TETROMINOES T_key)) = (storedT, 3)"
  by (simp add: storeMatrix_def alloc_row_def alloc_grid_def emptyHeap_def storedT_def Let_def
      eval_nat_numeral)

lemma storedT_facts:
  "3 < lim storedT" "gridOf storedT 3 = [0, 1, 2]" "distinct (gridOf storedT 3)"
  "matrixOf storedT 3 = shape (TETROMINOES T_key)"
  by (simp_all add: storedT_def matrixOf_def)

lemma squareGrid_T: "squareGrid 3 (shape (TETROMINOES T_key))"
  by (simp add: squareGrid_def nums_def)

text \<open>
  \<^verbatim>\<open>rotate\<close> applied to a grid itself, not to a copy: afterwards the argument reads as
  the rotated grid.
\<close>

lemma rotate_changes_its_argument:
  "matrixOf storedCorner 2 = [nums [1, 0], nums [0, 0]]
   \<and> (let (h', res) = rotate storedCorner 2 1
      in matrixOf h' 2 = [nums [0, 1], nums [0, 0]] \<and> matrixOf h' res = [nums [0, 1], nums [0, 0]])"
  by (simp add: storedCorner_def rotate_def transposeInPlace_def swapCells_def alloc_grid_def
      matrixOf_def reverseRow_def nums_def js_get_def js_set_def js_read_def Let_def
      upt_rec [of _ "numeral _"] upt_rec [of _ "Suc _"])

text \<open>
  Claim C3. The rotation as the engine performs it,
  \<^verbatim>\<open>rotate(shape.map((row) => [...row]), dir)\<close>, leaves the grid it is given as it was,
  with the same rows holding the same cells; every array that existed before the call
  is unchanged, and the grid it returns is another outer array, whose rows are none of
  the given grid's. This holds for every grid, square or not, and for both
  directions. (\<^verbatim>\<open>rotate\<close> by itself swaps and reverses the arrays of its argument in
  place, see \<open>rotate_changes_its_argument\<close> above: the copy made at the call is what
  keeps the stored shape unchanged.)
\<close>

theorem rotation_leaves_stored_shape_unchanged:
  assumes "m < lim h" and "\<forall>r \<in> set (gridOf h m). r < lim h"
  shows "let (h1, c) = copyMatrix h m; (h2, res) = rotate h1 c dir in
           matrixOf h2 m = matrixOf h m \<and> gridOf h2 m = gridOf h m
         \<and> (\<forall>r < lim h. rowsOf h2 r = rowsOf h r \<and> gridOf h2 r = gridOf h r)
         \<and> lim h \<le> res \<and> res \<noteq> m \<and> (\<forall>r \<in> set (gridOf h2 res). lim h \<le> r \<and> r \<notin> set (gridOf h m))"
proof -
  obtain h1a rs1 where cp: "copyRows h (gridOf h m) = (h1a, rs1)" by (cases "copyRows h (gridOf h m)")
  let ?h1 = "fst (alloc_grid h1a rs1)" and ?c = "lim h1a"
  have cm: "copyMatrix h m = (?h1, ?c)" by (simp add: copyMatrix_def cp alloc_grid_def)
  obtain h2 res where rt: "rotate ?h1 ?c dir = (h2, res)" by (cases "rotate ?h1 ?c dir")
  from copyRows_spec [OF cp] have
    a: "lim h \<le> lim h1a" and b: "gridOf h1a = gridOf h"
    and c: "\<forall>r < lim h. rowsOf h1a r = rowsOf h r"
    and d: "\<forall>r \<in> set rs1. lim h \<le> r"
    by auto
  have h1: "rowsOf ?h1 = rowsOf h1a" "gridOf ?h1 ?c = rs1" "lim ?h1 = Suc (lim h1a)"
    "\<And>g. g \<noteq> ?c \<Longrightarrow> gridOf ?h1 g = gridOf h g"
    by (simp_all add: alloc_grid_def b)
  from rotate_frame [OF rt] have
    e: "\<forall>r. r \<notin> set rs1 \<longrightarrow> rowsOf h2 r = rowsOf h1a r"
    and f: "\<forall>g. g \<noteq> ?c \<and> g \<noteq> Suc (lim h1a) \<longrightarrow> gridOf h2 g = gridOf ?h1 g"
    and g: "res = ?c \<or> res = Suc (lim h1a)"
    and i: "set (gridOf h2 res) = set rs1"
    by (simp_all add: h1)
  have rows: "rowsOf h2 r = rowsOf h r" if "r < lim h" for r
  proof -
    from that d have "r \<notin> set rs1" by auto
    with e c that show ?thesis by simp
  qed
  have grids: "gridOf h2 g' = gridOf h g'" if "g' < lim h" for g'
  proof -
    from that a have "g' \<noteq> ?c" "g' \<noteq> Suc (lim h1a)" by simp_all
    with f h1(4) show ?thesis by simp
  qed
  have "matrixOf h2 m = matrixOf h m"
    using assms rows grids by (simp add: matrixOf_def)
  moreover have "lim h \<le> res" "res \<noteq> m" using g a assms(1) by auto
  moreover have "\<forall>r \<in> set (gridOf h2 res). lim h \<le> r \<and> r \<notin> set (gridOf h m)"
    using i d assms(2) by fastforce
  ultimately show ?thesis
    using rows grids assms(1) by (simp add: cm rt)
qed

text \<open>Claim C3 for the stored T shape.\<close>

theorem rotation_leaves_stored_shape_unchanged_witness:
  "3 < lim storedT \<and> list_all (\<lambda>r. r < lim storedT) (gridOf storedT 3)
   \<and> (let (h1, c) = copyMatrix storedT 3; (h2, res) = rotate h1 c 1
      in matrixOf h2 3 = shape (TETROMINOES T_key) \<and> gridOf h2 3 = [0, 1, 2]
         \<and> 4 \<le> res \<and> res \<noteq> 3)"
proof -
  have old: "\<forall>r \<in> set (gridOf storedT 3). r < lim storedT"
    by (simp add: storedT_def)
  have four: "lim storedT = 4" by (simp add: storedT_def)
  from rotation_leaves_stored_shape_unchanged [OF storedT_facts(1) old, of 1]
  show ?thesis
    using old by (auto simp: storedT_facts four list_all_iff split: prod.splits)
qed

text \<open>
  Claim C6. For a square grid (\<open>n\<close> rows of \<open>n\<close> cells, no holes) whose rows are \<open>n\<close>
  different arrays, four calls of \<^verbatim>\<open>rotate\<close> with a positive \<open>dir\<close>, each on the result
  of the call before, end with a grid equal to the original, and the result of every
  call is again a square grid of the same size. The same holds for the rotation of
  the engine, which rotates a copy of the stored shape.
\<close>

theorem four_rotations_restore_grid:
  "(distinct (gridOf h m) \<and> squareGrid n (matrixOf h m) \<and> 0 < dir \<longrightarrow>
      (let (h1, g1) = rotate h m dir; (h2, g2) = rotate h1 g1 dir;
           (h3, g3) = rotate h2 g2 dir; (h4, g4) = rotate h3 g3 dir
       in matrixOf h4 g4 = matrixOf h m
          \<and> squareGrid n (matrixOf h1 g1) \<and> squareGrid n (matrixOf h2 g2)
          \<and> squareGrid n (matrixOf h3 g3)))
   \<and> (squareGrid n shp \<longrightarrow>
        rotatedCopy (rotatedCopy (rotatedCopy (rotatedCopy shp))) = shp
        \<and> squareGrid n (rotatedCopy shp))"
proof (intro conjI impI)
  assume pre: "distinct (gridOf h m) \<and> squareGrid n (matrixOf h m) \<and> 0 < dir"
  then have d0: "distinct (gridOf h m)" and sq0: "squareGrid n (matrixOf h m)" and dir: "0 < dir"
    by simp_all
  obtain h1 g1 where r1: "rotate h m dir = (h1, g1)" by (cases "rotate h m dir")
  obtain h2 g2 where r2: "rotate h1 g1 dir = (h2, g2)" by (cases "rotate h1 g1 dir")
  obtain h3 g3 where r3: "rotate h2 g2 dir = (h3, g3)" by (cases "rotate h2 g2 dir")
  obtain h4 g4 where r4: "rotate h3 g3 dir = (h4, g4)" by (cases "rotate h3 g3 dir")
  let ?m0 = "matrixOf h m"
  from rotate_value [OF d0 sq0 dir r1] have
    d1: "distinct (gridOf h1 g1)" and v1: "matrixOf h1 g1 = clockwise ?m0"
    using d0 by simp_all
  have sq1: "squareGrid n (matrixOf h1 g1)" unfolding v1 by (rule squareGrid_clockwise [OF sq0])
  from rotate_value [OF d1 sq1 dir r2] have
    d2: "distinct (gridOf h2 g2)" and v2: "matrixOf h2 g2 = clockwise (clockwise ?m0)"
    using d1 v1 by simp_all
  have sq2: "squareGrid n (matrixOf h2 g2)" unfolding v2 using sq1 v1 squareGrid_clockwise by metis
  from rotate_value [OF d2 sq2 dir r3] have
    d3: "distinct (gridOf h3 g3)" and v3: "matrixOf h3 g3 = clockwise (clockwise (clockwise ?m0))"
    using d2 v2 by simp_all
  have sq3: "squareGrid n (matrixOf h3 g3)" unfolding v3 using sq2 v2 squareGrid_clockwise by metis
  from rotate_value [OF d3 sq3 dir r4] have
    v4: "matrixOf h4 g4 = clockwise (clockwise (clockwise (clockwise ?m0)))"
    using v3 by simp
  then have "matrixOf h4 g4 = ?m0" by (simp add: clockwise_four_times [OF sq0])
  with sq1 sq2 sq3 show "let (h1, g1) = rotate h m dir; (h2, g2) = rotate h1 g1 dir;
           (h3, g3) = rotate h2 g2 dir; (h4, g4) = rotate h3 g3 dir
       in matrixOf h4 g4 = matrixOf h m
          \<and> squareGrid n (matrixOf h1 g1) \<and> squareGrid n (matrixOf h2 g2)
          \<and> squareGrid n (matrixOf h3 g3)"
    by (simp add: r1 r2 r3 r4)
next
  assume sq: "squareGrid n shp"
  have sq1: "squareGrid n (clockwise shp)" by (rule squareGrid_clockwise [OF sq])
  have sq2: "squareGrid n (clockwise (clockwise shp))" by (rule squareGrid_clockwise [OF sq1])
  have sq3: "squareGrid n (clockwise (clockwise (clockwise shp)))" by (rule squareGrid_clockwise [OF sq2])
  show "rotatedCopy (rotatedCopy (rotatedCopy (rotatedCopy shp))) = shp"
    by (simp add: rotatedCopy_clockwise [OF sq] rotatedCopy_clockwise [OF sq1]
        rotatedCopy_clockwise [OF sq2] rotatedCopy_clockwise [OF sq3] clockwise_four_times [OF sq])
  show "squareGrid n (rotatedCopy shp)"
    by (simp add: rotatedCopy_clockwise [OF sq] sq1)
qed

text \<open>Claim C6 for the stored T shape, rotated in place, and for the T shape as a value.\<close>

theorem four_rotations_restore_grid_witness:
  "distinct (gridOf storedT 3) \<and> squareGrid 3 (matrixOf storedT 3)
   \<and> (let (h1, g1) = rotate storedT 3 1; (h2, g2) = rotate h1 g1 1;
           (h3, g3) = rotate h2 g2 1; (h4, g4) = rotate h3 g3 1
       in matrixOf h4 g4 = shape (TETROMINOES T_key) \<and> squareGrid 3 (matrixOf h1 g1))
   \<and> squareGrid 3 (shape (TETROMINOES T_key))
   \<and> rotatedCopy (rotatedCopy (rotatedCopy (rotatedCopy (shape (TETROMINOES T_key)))))
        = shape (TETROMINOES T_key)
   \<and> squareGrid 3 (rotatedCopy (shape (TETROMINOES T_key)))"
proof -
  have sq: "squareGrid 3 (matrixOf storedT 3)"
    unfolding storedT_facts(4) by (rule squareGrid_T)
  from four_rotations_restore_grid [of storedT 3 3 1 "shape (TETROMINOES T_key)"]
  show ?thesis
    using sq squareGrid_T storedT_facts(3)
    by (auto simp: storedT_facts(4) split: prod.splits)
qed

text \<open>The upright I piece of the example lock is the I piece rotated once.\<close>

lemma rotatedCopy_I:
  "rotatedCopy (shape (TETROMINOES I_key))
     = shape uprightI"
proof -
  have "squareGrid 4 (shape (TETROMINOES I_key))" by (simp add: squareGrid_def nums_def)
  from rotatedCopy_clockwise [OF this] show ?thesis
    by (simp add: clockwise_def nums_def uprightI_def upt_rec [of _ "numeral _"] upt_rec [of _ "Suc _"])
qed

section \<open>Properties of the lock and the line clear\<close>

declare clearLoop.simps [simp del]

lemma clearLoop_result:
  assumes "- 1 \<le> y" and "nat (y + 1) \<le> length b"
  shows "clearLoop b y n =
     Inr (replicate (length (filter every_nonzero (take (nat (y + 1)) b))) emptyRow
            @ filter (\<lambda>cells. \<not> every_nonzero cells) (take (nat (y + 1)) b)
            @ drop (nat (y + 1)) b,
          n + int (length (filter every_nonzero (take (nat (y + 1)) b))))"
  using assms
proof (induction b y n rule: clearLoop.induct)
  case (1 newBoard y linesCleared)
  show ?case
  proof (cases "0 \<le> y")
    case False
    with "1.prems" have "y = - 1" by simp
    then show ?thesis by (simp add: clearLoop.simps [of newBoard "- 1"])
  next
    case True
    with "1.prems" have inr: "nat y < length newBoard" by linarith
    have suc: "nat (y + 1) = Suc (nat y)" using True by linarith
    have tk: "take (Suc (nat y)) newBoard = take (nat y) newBoard @ [newBoard ! nat y]"
      using inr by (simp add: take_Suc_conv_app_nth)
    show ?thesis
    proof (cases "every_nonzero (newBoard ! nat y)")
      case full: True
      let ?b' = "emptyRow # (take (nat y) newBoard @ drop (Suc (nat y)) newBoard)"
      have len: "nat (y + 1) \<le> length ?b'" using inr suc by simp
      have tk': "take (nat (y + 1)) ?b' = emptyRow # take (nat y) newBoard"
        using inr suc by simp
      have dr': "drop (nat (y + 1)) ?b' = drop (Suc (nat y)) newBoard"
        using inr suc by simp
      have step: "clearLoop newBoard y linesCleared = clearLoop ?b' y (linesCleared + 1)"
        using True inr full by (simp add: clearLoop.simps [of newBoard y])
      have ih: "clearLoop ?b' y (linesCleared + 1) =
          Inr (replicate (length (filter every_nonzero (take (nat (y + 1)) ?b'))) emptyRow
            @ filter (\<lambda>cells. \<not> every_nonzero cells) (take (nat (y + 1)) ?b')
            @ drop (nat (y + 1)) ?b',
          linesCleared + 1 + int (length (filter every_nonzero (take (nat (y + 1)) ?b'))))"
        using "1.IH"(1) [OF True inr full] "1.prems"(1) len by blast
      have cnt: "length (filter every_nonzero (take (Suc (nat y)) newBoard))
          = Suc (length (filter every_nonzero (take (nat y) newBoard)))"
        using full by (simp add: tk)
      have keep: "filter (\<lambda>cells. \<not> every_nonzero cells) (take (Suc (nat y)) newBoard)
          = filter (\<lambda>cells. \<not> every_nonzero cells) (take (nat y) newBoard)"
        using full by (simp add: tk)
      show ?thesis
        unfolding step ih tk' dr'
        unfolding suc cnt keep
        by (simp add: emptyRow_not_full replicate_append_same)
    next
      case notfull: False
      have step: "clearLoop newBoard y linesCleared = clearLoop newBoard (y - 1) linesCleared"
        using True inr notfull by (simp add: clearLoop.simps [of newBoard y])
      have prev: "nat (y - 1 + 1) = nat y" by simp
      have ih: "clearLoop newBoard (y - 1) linesCleared =
          Inr (replicate (length (filter every_nonzero (take (nat y) newBoard))) emptyRow
            @ filter (\<lambda>cells. \<not> every_nonzero cells) (take (nat y) newBoard)
            @ drop (nat y) newBoard,
          linesCleared + int (length (filter every_nonzero (take (nat y) newBoard))))"
        using "1.IH"(2) [OF True inr notfull] True inr unfolding prev by simp
      have cnt: "length (filter every_nonzero (take (Suc (nat y)) newBoard))
          = length (filter every_nonzero (take (nat y) newBoard))"
        using notfull by (simp add: tk)
      have keep: "filter (\<lambda>cells. \<not> every_nonzero cells) (take (Suc (nat y)) newBoard)
          = filter (\<lambda>cells. \<not> every_nonzero cells) (take (nat y) newBoard) @ [newBoard ! nat y]"
        using notfull by (simp add: tk)
      show ?thesis
        unfolding step ih
        unfolding suc cnt keep
        using inr by (simp add: Cons_nth_drop_Suc)
    qed
  qed
qed

lemma clearLoop_whole_board:
  assumes "int (length b) = BOARD_HEIGHT"
  shows "clearLoop b (BOARD_HEIGHT - 1) n =
     Inr (replicate (length (filter every_nonzero b)) emptyRow
            @ filter (\<lambda>cells. \<not> every_nonzero cells) b,
          n + int (length (filter every_nonzero b)))"
proof -
  have "nat (BOARD_HEIGHT - 1 + 1) = length b" using assms by simp
  moreover have "- 1 \<le> BOARD_HEIGHT - 1" by (simp add: BOARD_HEIGHT_def)
  ultimately show ?thesis
    using clearLoop_result [of "BOARD_HEIGHT - 1" b n] by simp
qed

lemma length_emptyRow: "int (length emptyRow) = BOARD_WIDTH"
  by (simp add: emptyRow_def BOARD_WIDTH_def)

lemma wfBoard_cleared:
  assumes "wfBoard b"
  shows "wfBoard (replicate (length (filter every_nonzero b)) emptyRow
            @ filter (\<lambda>cells. \<not> every_nonzero cells) b)"
proof -
  have "length (filter every_nonzero b) + length (filter (\<lambda>cells. \<not> every_nonzero cells) b) = length b"
    by (rule sum_length_filter_compl)
  with assms show ?thesis
    by (auto simp: wfBoard_def list_all_iff length_emptyRow)
qed

lemma wfBoard_cells: "wfBoard b \<Longrightarrow> sum_list (map length b) = nat (BOARD_HEIGHT * BOARD_WIDTH)"
proof -
  assume wf: "wfBoard b"
  then have "map length b = replicate (length b) (nat BOARD_WIDTH)"
    by (auto simp: wfBoard_def list_all_iff map_replicate_const [symmetric])
  then have "sum_list (map length b) = length b * nat BOARD_WIDTH"
    by (simp add: sum_list_replicate)
  with wf show ?thesis by (simp add: wfBoard_def nat_mult_distrib BOARD_HEIGHT_def)
qed

lemma placePiece_uprightI:
  "placePiece uprightI \<lparr>posX = - 2, posY = 16\<rparr> nearlyFullBoard = Inr placedI"
  by code_simp

lemma wfBoard_placedI: "wfBoard placedI"
  by code_simp

lemma placedI_rows:
  "replicate (length (filter every_nonzero placedI)) emptyRow
     @ filter (\<lambda>cells. \<not> every_nonzero cells) placedI
   = replicate 19 emptyRow @ [Str ''cyan'' # cellsOf ''#..#..#..'']"
  "int (length (filter every_nonzero placedI)) = 3"
  by code_simp+

text \<open>
  Claim C4. Let \<open>placed\<close> be the board right after the piece's cells were written, with
  \<open>BOARD_HEIGHT\<close> rows of \<open>BOARD_WIDTH\<close> cells. The line-clear loop ends, and the board it
  leaves is: one new empty row for every full row of \<open>placed\<close>, then the rows of \<open>placed\<close>
  that are not full, in their order. So a row is removed exactly when all its cells
  were non-empty in \<open>placed\<close>, wherever it stood (next to another full row or not); the
  count of the loop is the number of full rows; and the result has again
  \<open>BOARD_HEIGHT\<close> rows of \<open>BOARD_WIDTH\<close> cells and as many cells in total.
\<close>

theorem line_clear_removes_exactly_full_rows:
  assumes "placePiece t p prev = Inr placed" and "wfBoard placed"
  shows "\<exists>cleared n. boardUpdater t p prev = Inr (cleared, n)
     \<and> cleared = replicate (length (filter every_nonzero placed)) emptyRow
                  @ filter (\<lambda>cells. \<not> every_nonzero cells) placed
     \<and> n = int (length (filter every_nonzero placed))
     \<and> wfBoard cleared
     \<and> sum_list (map length cleared) = sum_list (map length placed)"
proof -
  let ?cleared = "replicate (length (filter every_nonzero placed)) emptyRow
                  @ filter (\<lambda>cells. \<not> every_nonzero cells) placed"
  from assms(2) have len: "int (length placed) = BOARD_HEIGHT" by (simp add: wfBoard_def)
  have "boardUpdater t p prev = Inr (?cleared, int (length (filter every_nonzero placed)))"
    by (simp add: boardUpdater_def assms(1) clearLoop_whole_board [OF len])
  moreover have wf: "wfBoard ?cleared" by (rule wfBoard_cleared [OF assms(2)])
  moreover have "sum_list (map length ?cleared) = sum_list (map length placed)"
    using wfBoard_cells [OF wf] wfBoard_cells [OF assms(2)] by simp
  ultimately show ?thesis by blast
qed

text \<open>
  Claim C4 for the example lock: rows 16, 18 and 19 are removed, row 17 comes to rest
  at the bottom under nineteen empty rows.
\<close>

theorem line_clear_removes_exactly_full_rows_witness:
  "placePiece uprightI \<lparr>posX = - 2, posY = 16\<rparr> nearlyFullBoard = Inr placedI
   \<and> wfBoard placedI
   \<and> boardUpdater uprightI \<lparr>posX = - 2, posY = 16\<rparr> nearlyFullBoard
        = Inr (replicate 19 emptyRow @ [Str ''cyan'' # cellsOf ''#..#..#..''], 3)
   \<and> wfBoard (replicate 19 emptyRow @ [Str ''cyan'' # cellsOf ''#..#..#..''])
   \<and> sum_list (map length (replicate 19 emptyRow @ [Str ''cyan'' # cellsOf ''#..#..#..'']))
        = sum_list (map length placedI)"
  using line_clear_removes_exactly_full_rows [OF placePiece_uprightI wfBoard_placedI]
        placePiece_uprightI wfBoard_placedI
  unfolding placedI_rows
  by auto

subsection \<open>The write of the piece\<close>

lemma placeRow_length:
  "placeRow cells b clr p y x = Inr b' \<Longrightarrow> length b' = length b"
proof (induction cells arbitrary: b x)
  case Nil
  then show ?case by simp
next
  case (Cons block rest)
  show ?case
  proof (cases "block \<noteq> Hole \<and> block \<noteq> Num 0")
    case True
    with Cons.prems have
      "placeRow rest (b[nat (posY p + y) := js_set (b ! nat (posY p + y)) (posX p + x) (Str clr)])
         clr p y (x + 1) = Inr b'"
      by (simp add: Let_def split: if_splits)
    from Cons.IH [OF this] show ?thesis by simp
  next
    case False
    with Cons.prems have "placeRow rest b clr p y (x + 1) = Inr b'" by auto
    from Cons.IH [OF this] show ?thesis .
  qed
qed

lemma placeRows_length:
  "placeRows rs b clr p y = Inr b' \<Longrightarrow> length b' = length b"
proof (induction rs arbitrary: b y)
  case Nil
  then show ?case by simp
next
  case (Cons cells rest)
  from Cons.prems obtain b1 where
    one: "placeRow cells b clr p y 0 = Inr b1" and more: "placeRows rest b1 clr p (y + 1) = Inr b'"
    by (auto split: sum.splits)
  from Cons.IH [OF more] placeRow_length [OF one] show ?case by simp
qed

lemma placePiece_length:
  "placePiece t p b = Inr placed \<Longrightarrow> length placed = length b"
  by (auto simp: placePiece_def dest: placeRows_length)


lemma wfBoard_write:
  assumes "wfBoard b" "r < length b" "0 \<le> c" "c < BOARD_WIDTH"
  shows "wfBoard (b[r := js_set (b ! r) c v])"
proof -
  from assms(1,2) have "int (length (b ! r)) = BOARD_WIDTH"
    by (simp add: wfBoard_def list_all_length)
  with assms(3,4) have "int (length (js_set (b ! r) c v)) = BOARD_WIDTH"
    by (simp add: js_set_def)
  with assms(1,2) show ?thesis
    unfolding wfBoard_def list_all_length
    by (simp add: nth_list_update)
qed

lemma placeRow_succeeds:
  assumes "wfBoard b"
    and "\<forall>i < length cells. cells ! i \<noteq> Num 0 \<longrightarrow>
           0 \<le> posX p + x + int i \<and> posX p + x + int i < BOARD_WIDTH
           \<and> 0 \<le> posY p + y \<and> posY p + y < BOARD_HEIGHT"
  shows "\<exists>b'. placeRow cells b clr p y x = Inr b' \<and> wfBoard b'"
  using assms
proof (induction cells arbitrary: b x)
  case Nil
  then show ?case by simp
next
  case (Cons block rest)
  have rest: "\<forall>i < length rest. rest ! i \<noteq> Num 0 \<longrightarrow>
           0 \<le> posX p + (x + 1) + int i \<and> posX p + (x + 1) + int i < BOARD_WIDTH
           \<and> 0 \<le> posY p + y \<and> posY p + y < BOARD_HEIGHT"
  proof (intro allI impI)
    fix i assume "i < length rest" "rest ! i \<noteq> Num 0"
    with Cons.prems(2) [rule_format, of "Suc i"] show
      "0 \<le> posX p + (x + 1) + int i \<and> posX p + (x + 1) + int i < BOARD_WIDTH
           \<and> 0 \<le> posY p + y \<and> posY p + y < BOARD_HEIGHT"
      by (simp add: algebra_simps)
  qed
  show ?case
  proof (cases "block \<noteq> Hole \<and> block \<noteq> Num 0")
    case True
    with Cons.prems(2) [rule_format, of 0] have
      inb: "0 \<le> posX p + x" "posX p + x < BOARD_WIDTH" "0 \<le> posY p + y" "posY p + y < BOARD_HEIGHT"
      by simp_all
    from inb(3,4) Cons.prems(1) have r: "nat (posY p + y) < length b"
      unfolding wfBoard_def by linarith
    let ?b1 = "b[nat (posY p + y) := js_set (b ! nat (posY p + y)) (posX p + x) (Str clr)]"
    have "wfBoard ?b1" by (rule wfBoard_write [OF Cons.prems(1) r inb(1,2)])
    from Cons.IH [OF this rest] True inb(3) r show ?thesis by (simp add: Let_def)
  next
    case False
    from Cons.IH [OF Cons.prems(1) rest] False show ?thesis by auto
  qed
qed

lemma placeRows_succeeds:
  assumes "wfBoard b"
    and "\<forall>r < length rs. \<forall>c < length (rs ! r). rs ! r ! c \<noteq> Num 0 \<longrightarrow>
           0 \<le> posX p + int c \<and> posX p + int c < BOARD_WIDTH
           \<and> 0 \<le> posY p + y + int r \<and> posY p + y + int r < BOARD_HEIGHT"
  shows "\<exists>b'. placeRows rs b clr p y = Inr b' \<and> wfBoard b'"
  using assms
proof (induction rs arbitrary: b y)
  case Nil
  then show ?case by simp
next
  case (Cons cells rest)
  have "\<forall>i < length cells. cells ! i \<noteq> Num 0 \<longrightarrow>
           0 \<le> posX p + 0 + int i \<and> posX p + 0 + int i < BOARD_WIDTH
           \<and> 0 \<le> posY p + y \<and> posY p + y < BOARD_HEIGHT"
    using Cons.prems(2) [rule_format, of 0] by simp
  from placeRow_succeeds [OF Cons.prems(1) this] obtain b1 where
    one: "placeRow cells b clr p y 0 = Inr b1" and wf1: "wfBoard b1" by blast
  have "\<forall>r < length rest. \<forall>c < length (rest ! r). rest ! r ! c \<noteq> Num 0 \<longrightarrow>
           0 \<le> posX p + int c \<and> posX p + int c < BOARD_WIDTH
           \<and> 0 \<le> posY p + (y + 1) + int r \<and> posY p + (y + 1) + int r < BOARD_HEIGHT"
  proof (intro allI impI)
    fix r c assume "r < length rest" "c < length (rest ! r)" "rest ! r ! c \<noteq> Num 0"
    with Cons.prems(2) [rule_format, of "Suc r" c] show
      "0 \<le> posX p + int c \<and> posX p + int c < BOARD_WIDTH
           \<and> 0 \<le> posY p + (y + 1) + int r \<and> posY p + (y + 1) + int r < BOARD_HEIGHT"
      by (simp add: algebra_simps)
  qed
  from Cons.IH [OF wf1 this] one show ?case by simp
qed

lemma wfBoard_spread: "wfBoard b \<Longrightarrow> wfBoard (map spread b)"
  by (simp add: wfBoard_def list_all_iff spread_def)

lemma placePiece_succeeds:
  assumes "wfBoard b" "inBounds (shape t) p"
  shows "\<exists>placed. placePiece t p b = Inr placed \<and> wfBoard placed"
proof -
  have "\<forall>r < length (shape t). \<forall>c < length (shape t ! r). shape t ! r ! c \<noteq> Num 0 \<longrightarrow>
           0 \<le> posX p + int c \<and> posX p + int c < BOARD_WIDTH
           \<and> 0 \<le> posY p + 0 + int r \<and> posY p + 0 + int r < BOARD_HEIGHT"
    using assms(2) by (auto simp: inBounds_def)
  from placeRows_succeeds [OF wfBoard_spread [OF assms(1)] this]
  show ?thesis by (simp add: placePiece_def)
qed


lemma wfBoard_row: "wfBoard b \<Longrightarrow> r < length b \<Longrightarrow> int (length (b ! r)) = BOARD_WIDTH"
  by (simp add: wfBoard_def list_all_length)

lemma placeRow_cells:
  assumes "wfBoard b"
    and "\<forall>i < length cells. cells ! i \<noteq> Num 0 \<longrightarrow>
           0 \<le> posX p + x + int i \<and> posX p + x + int i < BOARD_WIDTH
           \<and> 0 \<le> posY p + y \<and> posY p + y < BOARD_HEIGHT"
    and "placeRow cells b clr p y x = Inr b'"
    and "r < length b" "int c < BOARD_WIDTH"
  shows "b' ! r ! c =
     (if int r = posY p + y \<and>
         (\<exists>i < length cells. cells ! i \<noteq> Num 0 \<and> cells ! i \<noteq> Hole \<and> posX p + x + int i = int c)
      then Str clr else b ! r ! c)"
  using assms
proof (induction cells arbitrary: b x)
  case Nil
  then show ?case by simp
next
  case (Cons block rest)
  have rest: "\<forall>i < length rest. rest ! i \<noteq> Num 0 \<longrightarrow>
           0 \<le> posX p + (x + 1) + int i \<and> posX p + (x + 1) + int i < BOARD_WIDTH
           \<and> 0 \<le> posY p + y \<and> posY p + y < BOARD_HEIGHT"
  proof (intro allI impI)
    fix i assume "i < length rest" "rest ! i \<noteq> Num 0"
    with Cons.prems(2) [rule_format, of "Suc i"] show
      "0 \<le> posX p + (x + 1) + int i \<and> posX p + (x + 1) + int i < BOARD_WIDTH
           \<and> 0 \<le> posY p + y \<and> posY p + y < BOARD_HEIGHT"
      by (simp add: algebra_simps)
  qed
  have shift: "(\<exists>i < length (block # rest). (block # rest) ! i \<noteq> Num 0 \<and> (block # rest) ! i \<noteq> Hole
                  \<and> posX p + x + int i = int c)
      = ((block \<noteq> Num 0 \<and> block \<noteq> Hole \<and> posX p + x = int c)
         \<or> (\<exists>i < length rest. rest ! i \<noteq> Num 0 \<and> rest ! i \<noteq> Hole \<and> posX p + (x + 1) + int i = int c))"
    unfolding ex_less_Cons by (simp add: algebra_simps)
  show ?case
  proof (cases "block \<noteq> Hole \<and> block \<noteq> Num 0")
    case True
    with Cons.prems(2) [rule_format, of 0] have
      inb: "0 \<le> posX p + x" "posX p + x < BOARD_WIDTH" "0 \<le> posY p + y" "posY p + y < BOARD_HEIGHT"
      by simp_all
    from inb(3,4) Cons.prems(1) have row: "nat (posY p + y) < length b"
      unfolding wfBoard_def by linarith
    let ?b1 = "b[nat (posY p + y) := js_set (b ! nat (posY p + y)) (posX p + x) (Str clr)]"
    have wf1: "wfBoard ?b1" by (rule wfBoard_write [OF Cons.prems(1) row inb(1,2)])
    have next_call: "placeRow rest ?b1 clr p y (x + 1) = Inr b'"
      using Cons.prems(3) True inb(3) row by (simp add: Let_def)
    have len1: "r < length ?b1" using Cons.prems(4) by simp
    have width: "int (length (b ! nat (posY p + y))) = BOARD_WIDTH"
      by (rule wfBoard_row [OF Cons.prems(1) row])
    have set_in: "js_set (b ! nat (posY p + y)) (posX p + x) (Str clr)
                    = (b ! nat (posY p + y))[nat (posX p + x) := Str clr]"
      using inb(1,2) width by (simp add: js_set_def)
    have cell1: "?b1 ! r ! c =
        (if int r = posY p + y \<and> posX p + x = int c then Str clr else b ! r ! c)"
    proof (cases "int r = posY p + y")
      case same: True
      then have r: "nat (posY p + y) = r" by simp
      have cl: "c < length (b ! r)" using Cons.prems(5) width r by simp
      have col: "(nat (posX p + x) = c) = (posX p + x = int c)" using inb(1) by auto
      have "?b1 ! r ! c = (b ! r)[nat (posX p + x) := Str clr] ! c"
        unfolding set_in using r Cons.prems(4) by simp
      also have "\<dots> = (if nat (posX p + x) = c then Str clr else b ! r ! c)"
        using cl by (simp add: nth_list_update)
      finally show ?thesis using same col by simp
    next
      case False
      then have "nat (posY p + y) \<noteq> r" using inb(3) by auto
      with False show ?thesis by simp
    qed
    from Cons.IH [OF wf1 rest next_call len1 Cons.prems(5)] show ?thesis
      unfolding shift cell1 using True by auto
  next
    case False
    then have next_call: "placeRow rest b clr p y (x + 1) = Inr b'"
      using Cons.prems(3) by auto
    from Cons.IH [OF Cons.prems(1) rest next_call Cons.prems(4,5)] show ?thesis
      unfolding shift using False by auto
  qed
qed


lemma placeRows_cells:
  assumes "wfBoard b"
    and "\<forall>i < length rs. \<forall>j < length (rs ! i). rs ! i ! j \<noteq> Num 0 \<longrightarrow>
           0 \<le> posX p + int j \<and> posX p + int j < BOARD_WIDTH
           \<and> 0 \<le> posY p + y + int i \<and> posY p + y + int i < BOARD_HEIGHT"
    and "placeRows rs b clr p y = Inr b'"
    and "r < length b" "int c < BOARD_WIDTH"
  shows "b' ! r ! c =
     (if \<exists>i < length rs. \<exists>j < length (rs ! i).
           rs ! i ! j \<noteq> Num 0 \<and> rs ! i ! j \<noteq> Hole
           \<and> posY p + y + int i = int r \<and> posX p + int j = int c
      then Str clr else b ! r ! c)"
  using assms
proof (induction rs arbitrary: b y)
  case Nil
  then show ?case by simp
next
  case (Cons cells rest)
  have first: "\<forall>i < length cells. cells ! i \<noteq> Num 0 \<longrightarrow>
           0 \<le> posX p + 0 + int i \<and> posX p + 0 + int i < BOARD_WIDTH
           \<and> 0 \<le> posY p + y \<and> posY p + y < BOARD_HEIGHT"
    using Cons.prems(2) [rule_format, of 0] by simp
  from Cons.prems(3) obtain b1 where
    one: "placeRow cells b clr p y 0 = Inr b1" and more: "placeRows rest b1 clr p (y + 1) = Inr b'"
    by (auto split: sum.splits)
  from placeRow_succeeds [OF Cons.prems(1) first, of clr] one have wf1: "wfBoard b1" by simp
  have len1: "r < length b1" using placeRow_length [OF one] Cons.prems(4) by simp
  have others: "\<forall>i < length rest. \<forall>j < length (rest ! i). rest ! i ! j \<noteq> Num 0 \<longrightarrow>
           0 \<le> posX p + int j \<and> posX p + int j < BOARD_WIDTH
           \<and> 0 \<le> posY p + (y + 1) + int i \<and> posY p + (y + 1) + int i < BOARD_HEIGHT"
  proof (intro allI impI)
    fix i j assume "i < length rest" "j < length (rest ! i)" "rest ! i ! j \<noteq> Num 0"
    with Cons.prems(2) [rule_format, of "Suc i" j] show
      "0 \<le> posX p + int j \<and> posX p + int j < BOARD_WIDTH
           \<and> 0 \<le> posY p + (y + 1) + int i \<and> posY p + (y + 1) + int i < BOARD_HEIGHT"
      by (simp add: algebra_simps)
  qed
  have cell1: "b1 ! r ! c =
     (if int r = posY p + y \<and>
         (\<exists>j < length cells. cells ! j \<noteq> Num 0 \<and> cells ! j \<noteq> Hole \<and> posX p + int j = int c)
      then Str clr else b ! r ! c)"
    using placeRow_cells [OF Cons.prems(1) first one Cons.prems(4,5)] by simp
  have shift: "(\<exists>i < length (cells # rest). \<exists>j < length ((cells # rest) ! i).
           (cells # rest) ! i ! j \<noteq> Num 0 \<and> (cells # rest) ! i ! j \<noteq> Hole
           \<and> posY p + y + int i = int r \<and> posX p + int j = int c)
     = ((int r = posY p + y \<and>
         (\<exists>j < length cells. cells ! j \<noteq> Num 0 \<and> cells ! j \<noteq> Hole \<and> posX p + int j = int c))
        \<or> (\<exists>i < length rest. \<exists>j < length (rest ! i).
           rest ! i ! j \<noteq> Num 0 \<and> rest ! i ! j \<noteq> Hole
           \<and> posY p + (y + 1) + int i = int r \<and> posX p + int j = int c))"
    unfolding ex_less_Cons by (auto simp: algebra_simps)
  from Cons.IH [OF wf1 others more len1 Cons.prems(5)] show ?case
    unfolding shift cell1 by auto
qed

lemma spread_cell: "c < length cells \<Longrightarrow> spread cells ! c = js_read (cells ! c)"
  by (simp add: spread_def)

text \<open>
  The lock writes the piece: on a board with its dimensions, for a piece that lies
  on the board, the write ends without a TypeError, and afterwards a cell holds the
  colour of the piece when an occupied cell of the shape lands on it, and what it
  held before otherwise.
\<close>

lemma lock_writes_the_piece:
  assumes "wfBoard b" "inBounds (shape t) p" "int r < BOARD_HEIGHT" "int c < BOARD_WIDTH"
  shows "\<exists>placed. placePiece t p b = Inr placed \<and> wfBoard placed
       \<and> placed ! r ! c = (if covers (shape t) p r c then Str (color t) else js_read (b ! r ! c))"
proof -
  from placePiece_succeeds [OF assms(1,2)] obtain placed where
    pl: "placePiece t p b = Inr placed" and wf: "wfBoard placed" by blast
  have wfs: "wfBoard (map spread b)" by (rule wfBoard_spread [OF assms(1)])
  have bounds: "\<forall>i < length (shape t). \<forall>j < length (shape t ! i). shape t ! i ! j \<noteq> Num 0 \<longrightarrow>
           0 \<le> posX p + int j \<and> posX p + int j < BOARD_WIDTH
           \<and> 0 \<le> posY p + 0 + int i \<and> posY p + 0 + int i < BOARD_HEIGHT"
    using assms(2) by (auto simp: inBounds_def)
  have rlen: "r < length b" using assms(1,3) unfolding wfBoard_def by linarith
  then have rlen': "r < length (map spread b)" by simp
  have clen: "c < length (b ! r)" using wfBoard_row [OF assms(1) rlen] assms(4) by simp
  from pl have rows: "placeRows (shape t) (map spread b) (color t) p 0 = Inr placed"
    by (simp add: placePiece_def)
  from placeRows_cells [OF wfs bounds rows rlen' assms(4)]
  have "placed ! r ! c = (if covers (shape t) p r c then Str (color t) else map spread b ! r ! c)"
    by (simp add: covers_def)
  with rlen clen have "placed ! r ! c =
      (if covers (shape t) p r c then Str (color t) else js_read (b ! r ! c))"
    by (simp add: spread_cell)
  with pl wf show ?thesis by blast
qed

section \<open>Properties of the handlers\<close>

subsection \<open>The hard drop loop\<close>

lemma hardDropLoop_induct:
  assumes "\<And>f shp b x dropY res.
    (\<And>shp b x dropY y. f shp b x dropY = Some y \<Longrightarrow> P shp b x dropY y) \<Longrightarrow>
     (if \<not> checkCollision shp b \<lparr>posX = x, posY = dropY + 1\<rparr>
      then f shp b x (dropY + 1) else Some dropY) = Some res
    \<Longrightarrow> P shp b x dropY res"
    and "hardDropLoop shp b x y0 = Some y"
  shows "P shp b x y0 y"
proof (rule hardDropLoop.raw_induct [where xa = "(((shp, b), x), y0)" and P = P and y = y, unfolded prod.case])
  fix f :: "matrix \<Rightarrow> board \<Rightarrow> int \<Rightarrow> int \<Rightarrow> int option" and shp' b' x' dropY res
  assume ih: "\<And>shp b x dropY y. f shp b x dropY = Some y \<Longrightarrow> P shp b x dropY y"
    and body: "(if \<not> checkCollision shp' b' \<lparr>posX = x', posY = dropY + 1\<rparr>
      then f shp' b' x' (dropY + 1) else Some dropY) = Some res"
  show "P shp' b' x' dropY res"
    using ih body by (rule assms(1) [of f])
next
  show "hardDropLoop shp b x y0 = Some y" by (rule assms(2))
qed

lemma hardDropLoop_Some:
  assumes "hardDropLoop shp b x y0 = Some y"
  shows "y0 \<le> y
       \<and> checkCollision shp b \<lparr>posX = x, posY = y + 1\<rparr>
       \<and> (\<forall>y'. y0 < y' \<and> y' \<le> y \<longrightarrow> \<not> checkCollision shp b \<lparr>posX = x, posY = y'\<rparr>)"
proof -
  let ?P = "\<lambda>shp b x y0 y. y0 \<le> y
       \<and> checkCollision shp b \<lparr>posX = x, posY = y + 1\<rparr>
       \<and> (\<forall>y'. y0 < y' \<and> y' \<le> y \<longrightarrow> \<not> checkCollision shp b \<lparr>posX = x, posY = y'\<rparr>)"
  have "?P shp b x y0 y"
  proof (rule hardDropLoop_induct [where P = ?P, OF _ assms])
    fix f :: "matrix \<Rightarrow> board \<Rightarrow> int \<Rightarrow> int \<Rightarrow> int option" and shp b x dropY res
    assume ih: "\<And>shp b x dropY y. f shp b x dropY = Some y \<Longrightarrow> ?P shp b x dropY y"
      and body: "(if \<not> checkCollision shp b \<lparr>posX = x, posY = dropY + 1\<rparr>
                  then f shp b x (dropY + 1) else Some dropY) = Some res"
    show "?P shp b x dropY res"
    proof (cases "checkCollision shp b \<lparr>posX = x, posY = dropY + 1\<rparr>")
      case True
      with body show ?thesis by auto
    next
      case False
      with body have "f shp b x (dropY + 1) = Some res" by simp
      from ih [OF this] have a: "dropY + 1 \<le> res"
        and c: "checkCollision shp b \<lparr>posX = x, posY = res + 1\<rparr>"
        and d: "\<forall>y'. dropY + 1 < y' \<and> y' \<le> res \<longrightarrow> \<not> checkCollision shp b \<lparr>posX = x, posY = y'\<rparr>"
        by blast+
      have "\<not> checkCollision shp b \<lparr>posX = x, posY = y'\<rparr>" if "dropY < y'" "y' \<le> res" for y'
      proof (cases "y' = dropY + 1")
        case True
        with False show ?thesis by simp
      next
        case False
        with that d show ?thesis by simp
      qed
      with a c show ?thesis by simp
    qed
  qed
  then show ?thesis .
qed

lemma hasBlock_iff: "hasBlock shp = (\<exists>r < length shp. \<exists>c < length (shp ! r). shp ! r ! c \<noteq> Num 0)"
  by (auto simp: hasBlock_def list_ex_length)

lemma checkCollision_below:
  assumes "r < length shp" "c < length (shp ! r)" "shp ! r ! c \<noteq> Num 0"
    and "BOARD_HEIGHT \<le> y + int r"
  shows "checkCollision shp b \<lparr>posX = x, posY = y\<rparr>"
  using assms unfolding checkCollision_iff cellHit_def by auto

lemma hardDropLoop_terminates:
  assumes "hasBlock shp"
  shows "\<exists>y. hardDropLoop shp b x y0 = Some y"
proof -
  from assms obtain r c where rc: "r < length shp" "c < length (shp ! r)" "shp ! r ! c \<noteq> Num 0"
    by (auto simp: hasBlock_iff)
  show ?thesis
  proof (induction "nat (BOARD_HEIGHT - (y0 + 1 + int r))" arbitrary: y0 rule: less_induct)
    case less
    show ?case
    proof (cases "checkCollision shp b \<lparr>posX = x, posY = y0 + 1\<rparr>")
      case True
      then show ?thesis by (subst hardDropLoop.simps) simp
    next
      case False
      with checkCollision_below [OF rc, of "y0 + 1" b x] have "y0 + 1 + int r < BOARD_HEIGHT"
        by fastforce
      then have "nat (BOARD_HEIGHT - (y0 + 1 + 1 + int r)) < nat (BOARD_HEIGHT - (y0 + 1 + int r))"
        by linarith
      from less [OF this] obtain y where "hardDropLoop shp b x (y0 + 1) = Some y" by blast
      with False show ?thesis by (subst hardDropLoop.simps) simp
    qed
  qed
qed

subsection \<open>The guards and the branches\<close>

lemma commit_refs:
  assumes "commit s = s"
  shows "gameStartedRef s = gameStarted s" "gameOverRef s = gameOver s"
    "currentTetrominoRef s = currentTetromino s" "currentPosRef s = currentPos s"
    "boardRef s = board s"
proof -
  have "gameStartedRef (commit s) = gameStarted s" "gameOverRef (commit s) = gameOver s"
    "currentTetrominoRef (commit s) = currentTetromino s" "currentPosRef (commit s) = currentPos s"
    "boardRef (commit s) = board s"
    by (simp_all add: commit_def)
  then show "gameStartedRef s = gameStarted s" "gameOverRef s = gameOver s"
    "currentTetrominoRef s = currentTetromino s" "currentPosRef s = currentPos s"
    "boardRef s = board s"
    by (simp_all add: assms)
qed

lemma commit_initialGame: "commit initialGame = initialGame"
  by (simp add: commit_def initialGame_def)

lemma handleKeyDown_stopped:
  "\<not> gameStartedRef s \<or> gameOverRef s \<Longrightarrow> handleKeyDown k kind s = Some (Inr s)"
  by (auto simp: handleKeyDown_def)

lemma gameLoop_stopped:
  "\<not> gameStartedRef s \<or> gameOverRef s \<Longrightarrow> gameLoop time kind s = Inr s"
  by (auto simp: gameLoop_def)

lemma step_stopped:
  assumes "commit s = s" and "\<not> gameStarted s \<or> gameOver s" and "e \<noteq> StartClick"
  shows "step e kind s = Some (Inr s)"
proof -
  from assms(1,2) have stopped: "\<not> gameStartedRef s \<or> gameOverRef s"
    by (simp add: commit_refs)
  show ?thesis
  proof (cases e)
    case (KeyDown k)
    then show ?thesis by (simp add: handleKeyDown_stopped [OF stopped] assms(1))
  next
    case (Frame time)
    then show ?thesis by (simp add: gameLoop_stopped [OF stopped] assms(1))
  next
    case StartClick
    with assms(3) show ?thesis by simp
  qed
qed




lemma gameLoop_timeout_collision:
  assumes "gameStartedRef s" and "\<not> gameOverRef s"
    and "currentTetrominoRef s = Some cur"
    and "checkCollision (shape cur) (boardRef s)
           \<lparr>posX = posX (currentPosRef s), posY = posY (currentPosRef s) + 1\<rparr>"
    and "dropTimeRef s + (time - (if lastTimeRef s = 0 then time else lastTimeRef s)) > 1000"
  shows "gameLoop time kind s =
           (case updateBoard cur (currentPosRef s) (s\<lparr>lastTimeRef := time, dropTimeRef := 0\<rparr>) of
              Inl e \<Rightarrow> Inl e
            | Inr s1 \<Rightarrow> Inr (newTetromino kind s1))"
proof (cases "lastTimeRef s = 0")
  case True
  with assms show ?thesis by (simp add: gameLoop_def Let_def)
next
  case False
  with assms show ?thesis by (simp add: gameLoop_def Let_def)
qed


lemma handleKeyDown_space:
  assumes "gameStartedRef s" and "\<not> gameOverRef s" and "currentTetrominoRef s = Some cur"
  shows "handleKeyDown '' '' kind s =
     (case hardDropLoop (shape cur) (boardRef s) (posX (currentPosRef s)) (posY (currentPosRef s)) of
        None \<Rightarrow> None
      | Some dropY \<Rightarrow> Some (Inr (s\<lparr>currentPos := (currentPos s)\<lparr>posY := dropY\<rparr>\<rparr>)))"
  using assms by (simp add: handleKeyDown_def)

subsection \<open>The states of a game\<close>















subsection \<open>The example runs\<close>

lemma run_fallingO: "run [(StartClick, O_key)] initialGame = Some (Inr fallingO)"
  by code_simp

lemma run_restingO:
  "run [(StartClick, O_key), (Frame 1, O_key), (KeyDown '' '', T_key)] initialGame = Some (Inr restingO)"
  by code_simp

lemma run_overlappingO: "run stackTrace initialGame = Some (Inr overlappingO)"
  by code_simp


lemma run_clearedGame:
  "run [(KeyDown ''ArrowDown'', T_key)] clearingGame = Some (Inr clearedGame)"
  by code_simp

lemma fallingO_facts:
  "commit fallingO = fallingO" "gameStarted fallingO" "\<not> gameOver fallingO"
  "currentTetromino fallingO = Some (TETROMINOES O_key)" "hasBlock (shape (TETROMINOES O_key))"
  by (simp_all add: fallingO_def commit_def hasBlock_def nums_def)






lemma run_droppingO: "run [(StartClick, O_key), (Frame 1, O_key)] initialGame = Some (Inr droppingO)"
  by code_simp

lemma droppingO_facts:
  "commit droppingO = droppingO" "gameStarted droppingO" "\<not> gameOver droppingO"
  "currentTetromino droppingO = Some (TETROMINOES O_key)" "hasBlock (shape (TETROMINOES O_key))"
  by (simp_all add: droppingO_def fallingO_def commit_def hasBlock_def nums_def)

lemma space_on_droppingO:
  "handleKeyDown '' '' T_key droppingO = Some (Inr (droppingO\<lparr>currentPos := \<lparr>posX = 4, posY = 18\<rparr>\<rparr>))"
  by code_simp

lemma commit_dropped: "commit (droppingO\<lparr>currentPos := \<lparr>posX = 4, posY = 18\<rparr>\<rparr>) = restingO"
  by (simp add: commit_def droppingO_def restingO_def fallingO_def)

lemma frame_on_restingO: "gameLoop 1002 T_key restingO = Inr (landedO\<lparr>lastTimeRef := 1002\<rparr>)"
  by code_simp

lemma run_tenthO:
  "run ([(StartClick, O_key), (Frame 1, O_key)] @ dropAndLock 9) initialGame = Some (Inr tenthO)"
  by code_simp

lemma lock_of_tenthO:
  "updateBoard (TETROMINOES O_key) (currentPosRef tenthO) (tenthO\<lparr>lastTimeRef := 10011, dropTimeRef := 0\<rparr>)
     = Inr lockedTenth"
  by code_simp

lemma spawn_on_lockedTenth:
  "checkCollision (shape (TETROMINOES O_key)) (board lockedTenth) \<lparr>posX = 4, posY = 0\<rparr>"
  "\<not> checkCollision (shape (TETROMINOES O_key)) (boardRef lockedTenth) \<lparr>posX = 4, posY = 0\<rparr>"
  "\<not> gameOver (newTetromino O_key lockedTenth)"
  "currentPos (newTetromino O_key lockedTenth) = \<lparr>posX = 4, posY = 0\<rparr>"
  by code_simp+

lemma frame_on_tenthO:
  "run [(Frame 10011, O_key)] tenthO = Some (Inr (commit (newTetromino O_key lockedTenth)))"
  "commit (newTetromino O_key lockedTenth) = overlappingO"
  by code_simp+

lemma space_on_overlappingO:
  "run [(KeyDown '' '', O_key)] overlappingO = Some (Inr overlappingO)"
  by code_simp


section \<open>The claims about the session\<close>

subsection \<open>Hard drop\<close>

text \<open>
  Against claim C1 as stated: after the start, a frame and the space key, the piece is
  at the bottom and the board is still empty; the piece is still the O piece, though
  the random source had a T piece ready for a spawn.
\<close>

theorem hard_drop_without_lock_counterexample:
  "run [(StartClick, O_key), (Frame 1, O_key), (KeyDown '' '', T_key)] initialGame = Some (Inr restingO)
   \<and> board restingO = createBoard
   \<and> currentTetromino restingO = Some (TETROMINOES O_key)
   \<and> currentPos restingO = \<lparr>posX = 4, posY = 18\<rparr>"
  using run_restingO by (simp add: restingO_def fallingO_def)

text \<open>
  Claim C1, as amended. In a running session with an active piece, the space key
  moves the piece straight down to the first offset whose next row collides, and
  changes nothing else: the board, the score, the piece and the flags stay as they
  are. The lock, the line clears and the spawn come with the next frame that times
  out, which finds the piece blocked.
\<close>

theorem hard_drop_moves_without_locking:
  assumes "commit s = s" and "gameStarted s" and "\<not> gameOver s"
    and "currentTetromino s = Some cur" and "hasBlock (shape cur)"
  shows "\<exists>dropY.
      handleKeyDown '' '' kind s = Some (Inr (s\<lparr>currentPos := (currentPos s)\<lparr>posY := dropY\<rparr>\<rparr>))
    \<and> posY (currentPos s) \<le> dropY
    \<and> (\<forall>y'. posY (currentPos s) < y' \<and> y' \<le> dropY \<longrightarrow>
          \<not> checkCollision (shape cur) (board s) \<lparr>posX = posX (currentPos s), posY = y'\<rparr>)
    \<and> checkCollision (shape cur) (board s) \<lparr>posX = posX (currentPos s), posY = dropY + 1\<rparr>
    \<and> (\<forall>time. 1000 < dropTimeRef s + (time - (if lastTimeRef s = 0 then time else lastTimeRef s)) \<longrightarrow>
          gameLoop time kind (commit (s\<lparr>currentPos := (currentPos s)\<lparr>posY := dropY\<rparr>\<rparr>)) =
            (case updateBoard cur ((currentPos s)\<lparr>posY := dropY\<rparr>)
                    ((commit (s\<lparr>currentPos := (currentPos s)\<lparr>posY := dropY\<rparr>\<rparr>))
                       \<lparr>lastTimeRef := time, dropTimeRef := 0\<rparr>) of
               Inl e \<Rightarrow> Inl e
             | Inr s1 \<Rightarrow> Inr (newTetromino kind s1)))"
proof -
  note refs = commit_refs [OF assms(1)]
  from hardDropLoop_terminates [OF assms(5)] obtain dropY where
    loop: "hardDropLoop (shape cur) (board s) (posX (currentPos s)) (posY (currentPos s)) = Some dropY"
    by blast
  let ?s' = "s\<lparr>currentPos := (currentPos s)\<lparr>posY := dropY\<rparr>\<rparr>"
  have key: "handleKeyDown '' '' kind s = Some (Inr ?s')"
    using handleKeyDown_space [of s cur kind] assms(2-4) loop by (simp add: refs)
  from hardDropLoop_Some [OF loop] have
    le: "posY (currentPos s) \<le> dropY"
    and hit: "checkCollision (shape cur) (board s) \<lparr>posX = posX (currentPos s), posY = dropY + 1\<rparr>"
    and free: "\<forall>y'. posY (currentPos s) < y' \<and> y' \<le> dropY \<longrightarrow>
          \<not> checkCollision (shape cur) (board s) \<lparr>posX = posX (currentPos s), posY = y'\<rparr>"
    by blast+
  have tick: "gameLoop time kind (commit ?s') =
            (case updateBoard cur ((currentPos s)\<lparr>posY := dropY\<rparr>)
                    ((commit ?s')\<lparr>lastTimeRef := time, dropTimeRef := 0\<rparr>) of
               Inl e \<Rightarrow> Inl e
             | Inr s1 \<Rightarrow> Inr (newTetromino kind s1))"
    if late: "1000 < dropTimeRef s + (time - (if lastTimeRef s = 0 then time else lastTimeRef s))"
    for time
  proof -
    have "gameLoop time kind (commit ?s') =
            (case updateBoard cur (currentPosRef (commit ?s'))
                    ((commit ?s')\<lparr>lastTimeRef := time, dropTimeRef := 0\<rparr>) of
               Inl e \<Rightarrow> Inl e
             | Inr s1 \<Rightarrow> Inr (newTetromino kind s1))"
    proof (rule gameLoop_timeout_collision)
      show "gameStartedRef (commit ?s')" using assms(2) by (simp add: commit_def)
      show "\<not> gameOverRef (commit ?s')" using assms(3) by (simp add: commit_def)
      show "currentTetrominoRef (commit ?s') = Some cur" using assms(4) by (simp add: commit_def)
      show "checkCollision (shape cur) (boardRef (commit ?s'))
           \<lparr>posX = posX (currentPosRef (commit ?s')), posY = posY (currentPosRef (commit ?s')) + 1\<rparr>"
        using hit by (simp add: commit_def)
      show "dropTimeRef (commit ?s') + (time - (if lastTimeRef (commit ?s') = 0 then time else lastTimeRef (commit ?s'))) > 1000"
        using late by (simp add: commit_def split: if_splits)
    qed
    then show ?thesis by (simp add: commit_def)
  qed
  from key le free hit tick show ?thesis by blast
qed

text \<open>
  The amended claim C1 for the first piece of the example game, one millisecond after
  the start: the space key moves the piece from row 0 to row 18 and changes nothing
  else, and the frame at time 1002 locks it there and spawns the next piece.
\<close>

theorem hard_drop_moves_without_locking_witness:
  "commit droppingO = droppingO \<and> gameStarted droppingO \<and> \<not> gameOver droppingO
   \<and> currentTetromino droppingO = Some (TETROMINOES O_key) \<and> hasBlock (shape (TETROMINOES O_key))
   \<and> handleKeyDown '' '' T_key droppingO
        = Some (Inr (droppingO\<lparr>currentPos := \<lparr>posX = 4, posY = 18\<rparr>\<rparr>))
   \<and> checkCollision (shape (TETROMINOES O_key)) (board droppingO) \<lparr>posX = 4, posY = 19\<rparr>
   \<and> (1000 :: real) < dropTimeRef droppingO
                        + (1002 - (if lastTimeRef droppingO = 0 then 1002 else lastTimeRef droppingO))
   \<and> commit (droppingO\<lparr>currentPos := \<lparr>posX = 4, posY = 18\<rparr>\<rparr>) = restingO
   \<and> gameLoop 1002 T_key restingO =
        (case updateBoard (TETROMINOES O_key) \<lparr>posX = 4, posY = 18\<rparr>
                (restingO\<lparr>lastTimeRef := 1002, dropTimeRef := 0\<rparr>) of
           Inl e \<Rightarrow> Inl e
         | Inr s1 \<Rightarrow> Inr (newTetromino T_key s1))
   \<and> gameLoop 1002 T_key restingO = Inr (landedO\<lparr>lastTimeRef := 1002\<rparr>)"
proof -
  have late: "(1000 :: real) < dropTimeRef droppingO
                        + (1002 - (if lastTimeRef droppingO = 0 then 1002 else lastTimeRef droppingO))"
    by (simp add: droppingO_def fallingO_def)
  have at: "currentPos droppingO = \<lparr>posX = 4, posY = 0\<rparr>"
    by (simp add: droppingO_def fallingO_def)
  from hard_drop_moves_without_locking [OF droppingO_facts, of T_key] obtain dropY where
    key: "handleKeyDown '' '' T_key droppingO
            = Some (Inr (droppingO\<lparr>currentPos := (currentPos droppingO)\<lparr>posY := dropY\<rparr>\<rparr>))"
    and hit: "checkCollision (shape (TETROMINOES O_key)) (board droppingO)
                \<lparr>posX = posX (currentPos droppingO), posY = dropY + 1\<rparr>"
    and tick: "\<forall>time. 1000 < dropTimeRef droppingO
                      + (time - (if lastTimeRef droppingO = 0 then time else lastTimeRef droppingO)) \<longrightarrow>
          gameLoop time T_key (commit (droppingO\<lparr>currentPos := (currentPos droppingO)\<lparr>posY := dropY\<rparr>\<rparr>)) =
            (case updateBoard (TETROMINOES O_key) ((currentPos droppingO)\<lparr>posY := dropY\<rparr>)
                    ((commit (droppingO\<lparr>currentPos := (currentPos droppingO)\<lparr>posY := dropY\<rparr>\<rparr>))
                       \<lparr>lastTimeRef := time, dropTimeRef := 0\<rparr>) of
               Inl e \<Rightarrow> Inl e
             | Inr s1 \<Rightarrow> Inr (newTetromino T_key s1))"
    by blast
  from key have "droppingO\<lparr>currentPos := (currentPos droppingO)\<lparr>posY := dropY\<rparr>\<rparr>
                   = droppingO\<lparr>currentPos := \<lparr>posX = 4, posY = 18\<rparr>\<rparr>"
    unfolding space_on_droppingO by (simp only: option.inject sum.inject)
  then have "currentPos (droppingO\<lparr>currentPos := (currentPos droppingO)\<lparr>posY := dropY\<rparr>\<rparr>)
                   = currentPos (droppingO\<lparr>currentPos := \<lparr>posX = 4, posY = 18\<rparr>\<rparr>)"
    by (rule arg_cong)
  then have pos: "(currentPos droppingO)\<lparr>posY := dropY\<rparr> = \<lparr>posX = 4, posY = 18\<rparr>" by simp
  then have y: "dropY = 18" by (simp add: at)
  have hit': "checkCollision (shape (TETROMINOES O_key)) (board droppingO) \<lparr>posX = 4, posY = 19\<rparr>"
    using hit by (simp add: y at)
  from tick [rule_format, OF late] have
    "gameLoop 1002 T_key restingO =
        (case updateBoard (TETROMINOES O_key) \<lparr>posX = 4, posY = 18\<rparr>
                (restingO\<lparr>lastTimeRef := 1002, dropTimeRef := 0\<rparr>) of
           Inl e \<Rightarrow> Inl e
         | Inr s1 \<Rightarrow> Inr (newTetromino T_key s1))"
    unfolding pos commit_dropped .
  then show ?thesis
    by (intro conjI droppingO_facts space_on_droppingO hit' late commit_dropped frame_on_restingO)
qed

text \<open>
  The drop loop itself finds the resting offset. After a hard drop the same shape one
  row below the new offset collides; and a piece that was free at its offset before
  the drop is free at the new offset.
\<close>

lemma hardDrop_rests_when_free:
  assumes "commit s = s" and "gameStarted s" and "\<not> gameOver s"
    and "currentTetromino s = Some cur" and "hasBlock (shape cur)"
  shows "\<exists>s'. handleKeyDown '' '' kind s = Some (Inr s')
       \<and> currentTetromino s' = Some cur \<and> board s' = board s
       \<and> posX (currentPos s') = posX (currentPos s)
       \<and> checkCollision (shape cur) (board s') ((currentPos s')\<lparr>posY := posY (currentPos s') + 1\<rparr>)
       \<and> (\<not> checkCollision (shape cur) (board s) (currentPos s)
            \<longrightarrow> \<not> checkCollision (shape cur) (board s') (currentPos s'))"
proof -
  note refs = commit_refs [OF assms(1)]
  from hardDropLoop_terminates [OF assms(5)] obtain dropY where
    loop: "hardDropLoop (shape cur) (board s) (posX (currentPos s)) (posY (currentPos s)) = Some dropY"
    by blast
  let ?s' = "s\<lparr>currentPos := (currentPos s)\<lparr>posY := dropY\<rparr>\<rparr>"
  have key: "handleKeyDown '' '' kind s = Some (Inr ?s')"
    using handleKeyDown_space [of s cur kind] assms(2-4) loop by (simp add: refs)
  from hardDropLoop_Some [OF loop] have
    le: "posY (currentPos s) \<le> dropY"
    and hit: "checkCollision (shape cur) (board s) \<lparr>posX = posX (currentPos s), posY = dropY + 1\<rparr>"
    and free: "\<forall>y'. posY (currentPos s) < y' \<and> y' \<le> dropY \<longrightarrow>
          \<not> checkCollision (shape cur) (board s) \<lparr>posX = posX (currentPos s), posY = y'\<rparr>"
    by blast+
  have rest: "\<not> checkCollision (shape cur) (board ?s') (currentPos ?s')"
    if start: "\<not> checkCollision (shape cur) (board s) (currentPos s)"
  proof (cases "dropY = posY (currentPos s)")
    case True
    then have "(currentPos s)\<lparr>posY := dropY\<rparr> = currentPos s" by simp
    with start show ?thesis by simp
  next
    case False
    with le free have "\<not> checkCollision (shape cur) (board s) \<lparr>posX = posX (currentPos s), posY = dropY\<rparr>"
      by simp
    then show ?thesis by (simp add: checkCollision_def)
  qed
  have below: "checkCollision (shape cur) (board ?s') ((currentPos ?s')\<lparr>posY := posY (currentPos ?s') + 1\<rparr>)"
  proof -
    from hit show ?thesis by (simp add: checkCollision_def)
  qed
  from key assms(4) rest below show ?thesis by auto
qed

text \<open>The first piece of the example game comes to rest at row 18.\<close>

lemma hardDrop_rests_when_free_example:
  "commit fallingO = fallingO \<and> gameStarted fallingO \<and> \<not> gameOver fallingO
   \<and> currentTetromino fallingO = Some (TETROMINOES O_key) \<and> hasBlock (shape (TETROMINOES O_key))
   \<and> \<not> checkCollision (shape (TETROMINOES O_key)) (board fallingO) (currentPos fallingO)
   \<and> (\<exists>s'. handleKeyDown '' '' T_key fallingO = Some (Inr s')
       \<and> currentPos s' = \<lparr>posX = 4, posY = 18\<rparr>
       \<and> checkCollision (shape (TETROMINOES O_key)) (board s') ((currentPos s')\<lparr>posY := posY (currentPos s') + 1\<rparr>)
       \<and> \<not> checkCollision (shape (TETROMINOES O_key)) (board s') (currentPos s'))"
proof -
  have free: "\<not> checkCollision (shape (TETROMINOES O_key)) (board fallingO) (currentPos fallingO)"
    by code_simp
  have key: "handleKeyDown '' '' T_key fallingO
               = Some (Inr (fallingO\<lparr>currentPos := \<lparr>posX = 4, posY = 18\<rparr>\<rparr>))"
    by code_simp
  from hardDrop_rests_when_free [OF fallingO_facts, of T_key] free key fallingO_facts
  show ?thesis by auto
qed

text \<open>
  Claim C9 says that the piece rests, after a hard drop, at the last offset where it
  does not collide. The example game breaks it. The tenth piece is blocked at its
  spawn offset, and the frame at time 10011 locks it there, in rows 0 and 1. The spawn
  that follows tests the spawn offset for a collision, as it should, but on
  \<^verbatim>\<open>boardRef.current\<close>, which is still the board from before the lock: on the board with
  the lock applied the test succeeds, on \<^verbatim>\<open>boardRef.current\<close> it fails. So the game goes
  on, and the eleventh piece becomes the active piece on top of the tenth. The space
  key then leaves it where it is, at an offset where it collides with the board.
\<close>

theorem hard_drop_on_overlapping_spawn:
  "run ([(StartClick, O_key), (Frame 1, O_key)] @ dropAndLock 9) initialGame = Some (Inr tenthO)
   \<and> updateBoard (TETROMINOES O_key) (currentPosRef tenthO)
        (tenthO\<lparr>lastTimeRef := 10011, dropTimeRef := 0\<rparr>) = Inr lockedTenth
   \<and> checkCollision (shape (TETROMINOES O_key)) (board lockedTenth) \<lparr>posX = 4, posY = 0\<rparr>
   \<and> \<not> checkCollision (shape (TETROMINOES O_key)) (boardRef lockedTenth) \<lparr>posX = 4, posY = 0\<rparr>
   \<and> \<not> gameOver (newTetromino O_key lockedTenth)
   \<and> currentPos (newTetromino O_key lockedTenth) = \<lparr>posX = 4, posY = 0\<rparr>
   \<and> run [(Frame 10011, O_key)] tenthO = Some (Inr (commit (newTetromino O_key lockedTenth)))
   \<and> commit (newTetromino O_key lockedTenth) = overlappingO
   \<and> run stackTrace initialGame = Some (Inr overlappingO)
   \<and> currentTetromino overlappingO = Some (TETROMINOES O_key)
   \<and> run [(KeyDown '' '', O_key)] overlappingO = Some (Inr overlappingO)
   \<and> checkCollision (shape (TETROMINOES O_key)) (board overlappingO) (currentPos overlappingO)"
proof -
  have "currentTetromino overlappingO = Some (TETROMINOES O_key)"
    by (simp add: overlappingO_def fallingO_def)
  moreover have "checkCollision (shape (TETROMINOES O_key)) (board overlappingO) (currentPos overlappingO)"
    by code_simp
  ultimately show ?thesis
    by (intro conjI run_tenthO lock_of_tenthO spawn_on_lockedTenth frame_on_tenthO
        run_overlappingO space_on_overlappingO)
qed

subsection \<open>Spawn\<close>




subsection \<open>Score\<close>

lemma updateBoard_score:
  assumes "int (length (board s)) = BOARD_HEIGHT" and "placePiece t p (board s) = Inr placed"
  shows "\<exists>s'. updateBoard t p s = Inr s'
           \<and> score s' = score s + 100 * int (length (filter every_nonzero placed))"
proof -
  from placePiece_length [OF assms(2)] assms(1) have "int (length placed) = BOARD_HEIGHT" by simp
  from clearLoop_whole_board [OF this, of 0] show ?thesis
    by (simp add: updateBoard_def boardUpdater_def assms(2))
qed

lemma updateBoard_score_mono:
  "updateBoard t p s = Inr s' \<Longrightarrow> score s \<le> score s'"
  by (auto simp: updateBoard_def split: sum.splits prod.splits if_splits)

lemma newTetromino_score: "score (newTetromino kind s) = score s"
  by (simp add: newTetromino_def Let_def)

lemma handleKeyDown_score_mono:
  "handleKeyDown k kind s = Some (Inr s') \<Longrightarrow> score s \<le> score s'"
  by (auto simp: handleKeyDown_def Let_def newTetromino_score
           split: if_splits option.splits sum.splits dest: updateBoard_score_mono)

lemma gameLoop_score_mono:
  "gameLoop time kind s = Inr s' \<Longrightarrow> score s \<le> score s'"
  by (auto simp: gameLoop_def Let_def newTetromino_score
           split: if_splits option.splits sum.splits dest: updateBoard_score_mono)

lemma score_commit: "score (commit s) = score s"
  by (simp add: commit_def)

lemma step_score_mono:
  assumes "e \<noteq> StartClick" and "step e kind s = Some (Inr s')"
  shows "score s \<le> score s'"
proof (cases e)
  case (KeyDown k)
  with assms(2) obtain s1 where "handleKeyDown k kind s = Some (Inr s1)" "s' = commit s1"
    by (cases "handleKeyDown k kind s") (auto simp: map_sum_def split: sum.splits)
  then show ?thesis using handleKeyDown_score_mono [of k kind s s1] by (simp add: score_commit)
next
  case (Frame time)
  with assms(2) obtain s1 where "gameLoop time kind s = Inr s1" "s' = commit s1"
    by (auto simp: map_sum_def split: sum.splits)
  then show ?thesis using gameLoop_score_mono [of time kind s s1] by (simp add: score_commit)
next
  case StartClick
  with assms(1) show ?thesis by simp
qed

lemma step_score_nonneg:
  assumes "0 \<le> score s" and "step e kind s = Some (Inr s')"
  shows "0 \<le> score s'"
proof (cases "e = StartClick")
  case True
  with assms show ?thesis
    by (auto simp: score_commit startGame_def Let_def newTetromino_score)
next
  case False
  from step_score_mono [OF False assms(2)] assms(1) show ?thesis by simp
qed

lemma run_score_mono:
  assumes "\<forall>(e, kind) \<in> set evs. e \<noteq> StartClick" and "run evs s = Some (Inr s')"
  shows "score s \<le> score s'"
  using assms
proof (induction evs arbitrary: s)
  case Nil
  then show ?case by simp
next
  case (Cons ev evs)
  obtain e kind where ev: "ev = (e, kind)" by (cases ev)
  with Cons.prems(2) obtain s1 where one: "step e kind s = Some (Inr s1)" and more: "run evs s1 = Some (Inr s')"
    by (auto split: option.splits sum.splits)
  from Cons.prems(1) ev have "e \<noteq> StartClick" by simp
  from step_score_mono [OF this one] Cons.IH [OF _ more] Cons.prems(1) show ?case by simp
qed

lemma run_score_nonneg:
  assumes "0 \<le> score s" and "run evs s = Some (Inr s')"
  shows "0 \<le> score s'"
  using assms
proof (induction evs arbitrary: s)
  case Nil
  then show ?case by simp
next
  case (Cons ev evs)
  obtain e kind where ev: "ev = (e, kind)" by (cases ev)
  with Cons.prems(2) obtain s1 where one: "step e kind s = Some (Inr s1)" and more: "run evs s1 = Some (Inr s')"
    by (auto split: option.splits sum.splits)
  from Cons.IH [OF step_score_nonneg [OF Cons.prems(1) one] more] show ?case .
qed

text \<open>
  Claim C7. A lock on a board of \<open>BOARD_HEIGHT\<close> rows adds to the score exactly 100
  times the number of full rows of the board with the piece written in, which is
  the number of rows the lock clears: nothing when no row is full. Over any run of
  keys and frames the score does not decrease, and in every state reached from the
  initial state it is not negative.
\<close>

theorem lock_scores_100_per_cleared_row:
  "(wfBoard (board s) \<longrightarrow> placePiece t p (board s) = Inr placed \<longrightarrow>
      (\<exists>s'. updateBoard t p s = Inr s'
         \<and> score s' = score s + 100 * int (length (filter every_nonzero placed))))
   \<and> ((\<forall>(e, kind) \<in> set evs. e \<noteq> StartClick) \<longrightarrow> run evs s = Some (Inr s2) \<longrightarrow> score s \<le> score s2)
   \<and> (run evs' initialGame = Some (Inr s3) \<longrightarrow> 0 \<le> score s3)"
proof (intro conjI impI)
  assume "wfBoard (board s)" and "placePiece t p (board s) = Inr placed"
  then show "\<exists>s'. updateBoard t p s = Inr s'
         \<and> score s' = score s + 100 * int (length (filter every_nonzero placed))"
    using updateBoard_score [of s t p placed] by (simp add: wfBoard_def)
next
  assume "\<forall>(e, kind) \<in> set evs. e \<noteq> StartClick" and "run evs s = Some (Inr s2)"
  then show "score s \<le> score s2" by (rule run_score_mono)
next
  assume "run evs' initialGame = Some (Inr s3)"
  then show "0 \<le> score s3"
    using run_score_nonneg [of initialGame evs' s3] by (simp add: initialGame_def)
qed

text \<open>
  Claim C7 for the same lock, reached with the Down key (three rows, 300 points), and
  for the first moves of the example game.
\<close>

theorem lock_scores_100_per_cleared_row_witness:
  "wfBoard (board clearingGame)
   \<and> placePiece uprightI \<lparr>posX = - 2, posY = 16\<rparr> (board clearingGame) = Inr placedI
   \<and> (\<exists>s'. updateBoard uprightI \<lparr>posX = - 2, posY = 16\<rparr> clearingGame = Inr s'
         \<and> score s' = score clearingGame + 300)
   \<and> run [(KeyDown ''ArrowDown'', T_key)] clearingGame = Some (Inr clearedGame)
   \<and> score clearingGame \<le> score clearedGame
   \<and> run [(StartClick, O_key), (Frame 1, O_key), (KeyDown '' '', T_key)] initialGame = Some (Inr restingO)
   \<and> 0 \<le> score restingO"
proof -
  have wf: "wfBoard (board clearingGame)" by code_simp
  have pl: "placePiece uprightI \<lparr>posX = - 2, posY = 16\<rparr> (board clearingGame) = Inr placedI"
    using placePiece_uprightI by (simp add: clearingGame_def)
  have keys: "\<forall>(e, kind) \<in> set [(KeyDown ''ArrowDown'', T_key)]. e \<noteq> StartClick" by simp
  from lock_scores_100_per_cleared_row
         [of clearingGame uprightI "\<lparr>posX = - 2, posY = 16\<rparr>" placedI
             "[(KeyDown ''ArrowDown'', T_key)]" clearedGame
             "[(StartClick, O_key), (Frame 1, O_key), (KeyDown '' '', T_key)]" restingO]
       wf pl keys run_clearedGame run_restingO placedI_rows(2)
  show ?thesis by simp
qed

subsection \<open>Failed downward move\<close>



subsection \<open>A stopped session\<close>

text \<open>
  Claim C10. While the session is not running (the game was not started, or it is
  over), every key and every frame leaves the whole state as it is: the board, the
  score, the active piece and its offset among the rest. This holds for any run of
  such events, so the state changes again only with the start button.
\<close>

theorem stopped_session_is_frozen:
  assumes "commit s = s"
    and "\<not> gameStarted s \<or> gameOver s"
    and "\<forall>(e, kind) \<in> set evs. e \<noteq> StartClick"
  shows "run evs s = Some (Inr s)"
  using assms(3)
proof (induction evs)
  case Nil
  show ?case by simp
next
  case (Cons ev evs)
  obtain e kind where ev: "ev = (e, kind)" by (cases ev)
  with Cons.prems have "e \<noteq> StartClick" by simp
  from step_stopped [OF assms(1,2) this] have "step e kind s = Some (Inr s)" .
  moreover from Cons have "run evs s = Some (Inr s)" by simp
  ultimately show ?case by (simp add: ev)
qed

text \<open>
  Claim C10 for the state before the first start and for the state of the example
  game after it has topped out.
\<close>

theorem stopped_session_is_frozen_witness:
  "commit initialGame = initialGame \<and> \<not> gameStarted initialGame
   \<and> run [(KeyDown ''ArrowLeft'', T_key), (Frame 16, T_key), (KeyDown '' '', T_key),
           (KeyDown ''ArrowDown'', T_key), (Frame 2000, T_key), (KeyDown ''ArrowUp'', T_key)]
        initialGame = Some (Inr initialGame)
   \<and> commit toppedOut = toppedOut \<and> gameOver toppedOut
   \<and> run [(KeyDown ''ArrowLeft'', T_key), (Frame 16, T_key), (KeyDown '' '', T_key),
           (KeyDown ''ArrowDown'', T_key), (Frame 2000, T_key), (KeyDown ''ArrowUp'', T_key)]
        toppedOut = Some (Inr toppedOut)"
proof -
  let ?evs = "[(KeyDown ''ArrowLeft'', T_key), (Frame 16, T_key), (KeyDown '' '', T_key),
           (KeyDown ''ArrowDown'', T_key), (Frame 2000, T_key), (KeyDown ''ArrowUp'', T_key)]"
  have a: "\<not> gameStarted initialGame" by (simp add: initialGame_def)
  have b: "\<forall>(e, kind) \<in> set ?evs. e \<noteq> StartClick" by simp
  have c: "commit toppedOut = toppedOut"
    by (simp add: commit_def toppedOut_def overlappingO_def fallingO_def)
  have d: "gameOver toppedOut" by (simp add: toppedOut_def)
  have "run ?evs initialGame = Some (Inr initialGame)"
    using a by (intro stopped_session_is_frozen [OF commit_initialGame _ b]) simp
  moreover have "run ?evs toppedOut = Some (Inr toppedOut)"
    using d by (intro stopped_session_is_frozen [OF c _ b]) simp
  ultimately show ?thesis
    by (intro conjI commit_initialGame a c d)
qed

end
